theory Spec2Isabelle
  imports Main "HOL-Library.List_Lexorder" "HOL-Library.AList"
begin

chapter \<open>The Portunix release tooling: model\<close>

text \<open>
  The scripts under \<^verbatim>\<open>src/scripts\<close> are Python programs that act on the file
  system and call external tools.  Each function the claims are about is embedded
  as a HOL function over an explicit description of the part of the world it
  reads and writes: directories are association lists from names to contents,
  external commands are described by their outcome, raised exceptions are
  \<open>Inl\<close> results, console output is a list of messages.  All definitions come
  first; the verification follows in the second chapter.
\<close>

section \<open>\<^verbatim>\<open>make-release.py\<close>: version validation\<close>

text \<open>
  \<^verbatim>\<open>validate_version\<close> is \<^verbatim>\<open>bool(re.match(r'^v\d+\.\d+\.\d+(-SNAPSHOT)?$', version))\<close>.
  The fragment of Python's regular expressions the pattern uses is embedded as
  a datatype with a backtracking matcher.  A cursor is the input still to be
  read together with a flag saying that nothing has been consumed yet.

  \<^item> \<open>Bol\<close> is \<^verbatim>\<open>^\<close>: without \<^verbatim>\<open>re.MULTILINE\<close> it matches at the start of the string only.
  \<^item> \<open>Eol\<close> is \<^verbatim>\<open>$\<close>: it matches at the end of the string and also just before a
    newline that is the last character.
  \<^item> \<open>Digit\<close> is \<^verbatim>\<open>\d\<close>.  Characters of the model are 8-bit; among the code
    points below 256 the decimal digits are exactly \<^verbatim>\<open>0\<close> to \<^verbatim>\<open>9\<close>.
  \<^item> \<open>Plus\<close> is the greedy \<^verbatim>\<open>+\<close>, \<open>Opt\<close> the greedy \<^verbatim>\<open>?\<close> around a group.

  \<^verbatim>\<open>re.match\<close> anchors the match at position 0 and does not require it to reach
  the end of the string.
\<close>

datatype regex = Bol | Eol | Lit char | Digit | Cat regex regex | Opt regex | Plus regex

type_synonym cursor = "bool \<times> string"

definition is_ascii_digit :: "char \<Rightarrow> bool" where
  "is_ascii_digit c = (c \<in> set ''0123456789'')"

text \<open>
  One or more repetitions, longest first.  Every repetition of the pattern's
  \<^verbatim>\<open>\d\<close> consumes a character, so the length of the remaining input bounds the
  number of repetitions.
\<close>

fun iter :: "nat \<Rightarrow> (cursor \<Rightarrow> cursor list) \<Rightarrow> cursor \<Rightarrow> cursor list" where
  "iter 0 f c = []"
| "iter (Suc n) f c = concat (map (\<lambda>c'. iter n f c' @ [c']) (f c))"

primrec step :: "regex \<Rightarrow> cursor \<Rightarrow> cursor list" where
  "step Bol = (\<lambda>c. if fst c then [c] else [])"
| "step Eol = (\<lambda>c. if snd c = [] \<or> snd c = [CHR 0x0A] then [c] else [])"
| "step (Lit a) = (\<lambda>c. case snd c of [] \<Rightarrow> [] | x # xs \<Rightarrow> if x = a then [(False, xs)] else [])"
| "step Digit = (\<lambda>c. case snd c of [] \<Rightarrow> [] | x # xs \<Rightarrow> if is_ascii_digit x then [(False, xs)] else [])"
| "step (Cat r1 r2) = (\<lambda>c. concat (map (step r2) (step r1 c)))"
| "step (Opt r) = (\<lambda>c. step r c @ [c])"
| "step (Plus r) = (\<lambda>c. iter (length (snd c)) (step r) c)"

definition re_match :: "regex \<Rightarrow> string \<Rightarrow> bool" where
  "re_match r s = (step r (True, s) \<noteq> [])"

definition lits :: "string \<Rightarrow> regex" where
  "lits s = foldr (\<lambda>c r. Cat (Lit c) r) (butlast s) (Lit (last s))"

definition pattern :: regex where
  "pattern = Cat Bol (Cat (Lit CHR ''v'') (Cat (Plus Digit) (Cat (Lit CHR ''.'') (Cat (Plus Digit)
     (Cat (Lit CHR ''.'') (Cat (Plus Digit) (Cat (Opt (lits ''-SNAPSHOT'')) Eol)))))))"

definition validate_version :: "string \<Rightarrow> bool" where
  "validate_version version = re_match pattern version"

text \<open>
  The start of \<^verbatim>\<open>main\<close>, up to the validation of \<^verbatim>\<open>sys.argv[1]\<close>.  \<open>Inl\<close> is
  an early return: the exit status and the messages passed to \<^verbatim>\<open>print_error\<close>.
  \<open>Inr\<close> is the version the rest of the pipeline works with.
\<close>

definition invalid_version_message :: string where
  "invalid_version_message = ''Invalid version format. Use semantic versioning: v1.2.3''"

definition main_version_check :: "string list \<Rightarrow> (int \<times> string list) + string" where
  "main_version_check argv =
     (if length argv < 2 then Inl (1, [''Version parameter is required''])
      else if argv ! 1 = ''-h'' \<or> argv ! 1 = ''--help'' then Inl (0, [])
      else let version = argv ! 1 in
        if \<not> validate_version version then Inl (1, [invalid_version_message])
        else Inr version)"

text \<open>
  The grammar of the specification, \<^verbatim>\<open>vMAJOR.MINOR.PATCH[-SNAPSHOT]\<close>, written
  without reference to the matcher; \<open>py_version_format\<close> adds the one final
  newline that Python's \<^verbatim>\<open>$\<close> admits.
\<close>

definition digits1 :: "string \<Rightarrow> bool" where
  "digits1 ds = (ds \<noteq> [] \<and> list_all is_ascii_digit ds)"

definition version_format :: "string \<Rightarrow> bool" where
  "version_format s = (\<exists>a b c sfx. s = ''v'' @ a @ ''.'' @ b @ ''.'' @ c @ sfx \<and>
      digits1 a \<and> digits1 b \<and> digits1 c \<and> (sfx = [] \<or> sfx = ''-SNAPSHOT''))"

definition py_version_format :: "string \<Rightarrow> bool" where
  "py_version_format s = (version_format s \<or> (\<exists>t. s = t @ [CHR 0x0A] \<and> version_format t))"

text \<open>Auxiliary notions of the correctness proof of the matcher.\<close>

definition accepts :: "regex \<Rightarrow> cursor \<Rightarrow> bool" where
  "accepts r c = (step r c \<noteq> [])"

definition tail_re :: regex where
  "tail_re = Cat (Opt (lits ''-SNAPSHOT'')) Eol"

definition tail_ok :: "string \<Rightarrow> string \<Rightarrow> bool" where
  "tail_ok sfx fin = ((sfx = [] \<or> sfx = ''-SNAPSHOT'') \<and> (fin = [] \<or> fin = [CHR 0x0A]))"

section \<open>\<^verbatim>\<open>collect_release_notes.py\<close>: release-note records\<close>

subsection \<open>Strings and integers as Python has them\<close>

definition startswith :: "string \<Rightarrow> string \<Rightarrow> bool" where
  "startswith s pre = (take (length pre) s = pre)"

definition endswith :: "string \<Rightarrow> string \<Rightarrow> bool" where
  "endswith s suf = (length suf \<le> length s \<and> drop (length s - length suf) s = suf)"

text \<open>\<^verbatim>\<open>s.split(c)\<close> for a one-character separator: empty pieces are kept.\<close>

fun split_on :: "char \<Rightarrow> string \<Rightarrow> string list" where
  "split_on c [] = [[]]"
| "split_on c (x # xs) =
     (if x = c then [] # split_on c xs
      else (case split_on c xs of [] \<Rightarrow> [[x]] | p # ps \<Rightarrow> (x # p) # ps))"


text \<open>
  \<^verbatim>\<open>int(x)\<close> on a string, base 10: surrounding whitespace is stripped, one sign
  is allowed, and the digits may be grouped by single underscores; anything
  else raises \<^verbatim>\<open>ValueError\<close> (\<open>None\<close>).  Among the code points below 256 the
  whitespace characters are the ten of ASCII, \<^verbatim>\<open>U+0085\<close> and \<^verbatim>\<open>U+00A0\<close>.
  File-name components are far shorter than the 4300 digits at which \<^verbatim>\<open>int\<close>
  starts to refuse long inputs.
\<close>

definition py_isspace :: "char \<Rightarrow> bool" where
  "py_isspace c = (c \<in> set [CHR 0x09, CHR 0x0A, CHR 0x0B, CHR 0x0C, CHR 0x0D,
                              CHR 0x1C, CHR 0x1D, CHR 0x1E, CHR 0x1F, CHR 0x20,
                              CHR 0x85, CHR 0xA0])"

definition py_strip :: "string \<Rightarrow> string" where
  "py_strip s = rev (dropWhile py_isspace (rev (dropWhile py_isspace s)))"

fun int_body :: "string \<Rightarrow> bool" where
  "int_body [] = False"
| "int_body [c] = is_ascii_digit c"
| "int_body (c # d # r) =
     (is_ascii_digit c \<and> (if d = CHR ''_'' then int_body r else int_body (d # r)))"

definition digit_val :: "char \<Rightarrow> int" where
  "digit_val c = int (of_char c) - 48"

definition dec_value :: "string \<Rightarrow> int" where
  "dec_value b = foldl (\<lambda>a c. 10 * a + digit_val c) 0 (filter is_ascii_digit b)"

definition py_int :: "string \<Rightarrow> int option" where
  "py_int s =
     (case py_strip s of
        [] \<Rightarrow> None
      | c # r \<Rightarrow>
          if c = CHR ''-'' then (if int_body r then Some (- dec_value r) else None)
          else if c = CHR ''+'' then (if int_body r then Some (dec_value r) else None)
          else (if int_body (c # r) then Some (dec_value (c # r)) else None))"

subsection \<open>Records and the release-notes directory\<close>

text \<open>
  A release-note record is the dictionary \<^verbatim>\<open>json.load\<close> returns.  The model covers
  dictionaries whose known keys hold values of the types the functions below
  use them at (strings, lists of strings, a dictionary of lists of change
  items); a key that is absent is \<open>None\<close>.  Keys the functions never read are
  kept by name only: they matter for the truth value of the dictionary.
\<close>

record change_item =
  item_description :: "string option"
  item_issue :: "string option"

record release_note =
  version_field :: "string option"
  date_field :: "string option"
  tag_field :: "string option"
  summary_field :: "string option"
  highlights_field :: "string list option"
  changes_field :: "(string \<times> change_item list) list option"
  components_field :: "string list option"
  notes_field :: "string option"
  other_keys :: "string list"

text \<open>The truth value of the dictionary in \<^verbatim>\<open>if data:\<close>: it has a key.\<close>

definition data_nonempty :: "release_note \<Rightarrow> bool" where
  "data_nonempty d =
     (version_field d \<noteq> None \<or> date_field d \<noteq> None \<or> tag_field d \<noteq> None \<or>
      summary_field d \<noteq> None \<or> highlights_field d \<noteq> None \<or> changes_field d \<noteq> None \<or>
      components_field d \<noteq> None \<or> notes_field d \<noteq> None \<or> other_keys d \<noteq> [])"

text \<open>
  A file of the directory either parses as JSON or does not.  The directory is
  the listing of its regular files, in the order \<^verbatim>\<open>glob\<close> yields them; \<open>None\<close>
  is a directory that does not exist.
\<close>

datatype json_file = Invalid_json | Json release_note

type_synonym notes_dir = "(string \<times> json_file) list option"

datatype py_error = ValueError

text \<open>What the functions print to \<^verbatim>\<open>stderr\<close>.\<close>

datatype stderr_message =
  Invalid_json_error string
| Validation_warning string "string list"




definition version_to_tag :: "string \<Rightarrow> string" where
  "version_to_tag version = (if \<not> startswith version ''v'' then ''v'' @ version else version)"

text \<open>
  \<^verbatim>\<open>load_release_notes\<close>: the record of \<^verbatim>\<open>{version}.json\<close>, or \<open>None\<close> when the file
  does not exist or is not JSON (an error is printed then).
\<close>

definition load_release_notes :: "notes_dir \<Rightarrow> string \<Rightarrow> release_note option \<times> stderr_message list" where
  "load_release_notes dir version =
     (case dir of
        None \<Rightarrow> (None, [])
      | Some files \<Rightarrow>
          (case map_of files (version @ ''.json'') of
             None \<Rightarrow> (None, [])
           | Some Invalid_json \<Rightarrow> (None, [Invalid_json_error version])
           | Some (Json data) \<Rightarrow> (Some data, [])))"



subsection \<open>Rendering one record\<close>







subsection \<open>Aggregation\<close>

text \<open>
  The sort key \<^verbatim>\<open>[int(x) for x in v.split(".")]\<close>: \<open>None\<close> when one conversion
  raises.  Python compares lists of integers lexicographically, a proper prefix
  being smaller, which is the order of \<open>int list\<close>.
\<close>

definition version_key :: "string \<Rightarrow> int list option" where
  "version_key v = those (map py_int (split_on CHR ''.'' v))"

text \<open>
  \<^verbatim>\<open>sorted(existing, key=..., reverse=True)\<close>.  The keys of all elements are
  computed before anything is compared, so one failing conversion makes the
  call raise.  The sort is stable also in reverse: the list is reversed, sorted
  and reversed again.
\<close>

definition sorted_newest_first :: "string list \<Rightarrow> py_error + string list" where
  "sorted_newest_first existing =
     (case those (map version_key existing) of
        None \<Rightarrow> Inl ValueError
      | Some keys \<Rightarrow> Inr (map snd (rev (sort_key fst (rev (zip keys existing))))))"







subsection \<open>The completeness check and the entry point\<close>







definition has_record :: "notes_dir \<Rightarrow> string \<Rightarrow> bool" where
  "has_record dir v = (case fst (load_release_notes dir v) of None \<Rightarrow> False | Some d \<Rightarrow> data_nonempty d)"



subsection \<open>Records and command lines used in the examples\<close>




section \<open>Directory trees and archives\<close>

text \<open>
  A directory tree is the listing of everything beneath its root: the relative
  path of every file, with its bytes, and of every directory.  Only regular
  files and directories are modelled.  A listing is read as a map
  (\<open>map_of\<close>); the order of its entries has no meaning.

  A \<^verbatim>\<open>.zip\<close> or \<^verbatim>\<open>.tar.gz\<close> file is modelled by the tree its extraction yields;
  a file that \<^verbatim>\<open>zipfile\<close> or \<^verbatim>\<open>tarfile\<close> cannot read in the format its name
  announces is \<open>Not_an_archive\<close>.
\<close>

type_synonym path = "string list"

datatype entry = File string | Dir

type_synonym tree = "(path \<times> entry) list"

datatype file_content = Not_an_archive | Packed tree

definition is_file :: "entry \<Rightarrow> bool" where
  "is_file e = (case e of File c \<Rightarrow> True | Dir \<Rightarrow> False)"

definition strictly_below :: "path \<Rightarrow> path \<Rightarrow> bool" where
  "strictly_below p q = (length p < length q \<and> take (length p) q = p)"

text \<open>
  Both scripts write a zip archive with
  \<^verbatim>\<open>for item in root.rglob('*'): if item.is_file(): zipf.write(item, item.relative_to(root))\<close>:
  the members are the regular files, under their relative paths.  Extracting
  such an archive yields these files and the directories above them; empty
  directories are gone.
\<close>

definition zip_keeps :: "tree \<Rightarrow> path \<times> entry \<Rightarrow> bool" where
  "zip_keeps t pe =
     (is_file (snd pe) \<or> list_ex (\<lambda>qe. is_file (snd qe) \<and> strictly_below (fst pe) (fst qe)) t)"

definition zip_tree :: "tree \<Rightarrow> tree" where
  "zip_tree t = filter (zip_keeps t) t"

text \<open>
  A tar archive is written with
  \<^verbatim>\<open>for item in root.iterdir(): tar.add(item, arcname=item.name)\<close>; \<^verbatim>\<open>tar.add\<close> is
  recursive, so every entry of the tree becomes a member.
\<close>

definition tar_tree :: "tree \<Rightarrow> tree" where
  "tar_tree t = t"

text \<open>
  The outcome of writing a new archive body: it is written, or an exception
  is raised, leaving a truncated file behind (\<open>True\<close>) or nothing.
\<close>

datatype write_outcome = Written | Write_failed bool

section \<open>\<^verbatim>\<open>create-platform-archives.py\<close>\<close>

definition PLATFORMS :: "string list" where
  "PLATFORMS = [''linux-amd64'', ''linux-arm64'', ''windows-amd64'', ''darwin-amd64'']"

definition get_archive_info :: "string \<Rightarrow> string \<times> string" where
  "get_archive_info platform =
     (if startswith platform ''windows'' then (platform @ ''.zip'', ''zip'')
      else (platform @ ''.tar.gz'', ''tar.gz''))"

definition create_tar_gz :: "tree \<Rightarrow> file_content" where
  "create_tar_gz source_dir = Packed (tar_tree source_dir)"

definition create_zip :: "tree \<Rightarrow> file_content" where
  "create_zip source_dir = Packed (zip_tree source_dir)"

text \<open>
  What the script prints, by the function that prints it: \<open>Dir_not_found\<close> and
  \<open>No_files\<close> are the two warnings, \<open>Creating\<close> is the information line,
  \<open>Created\<close> the success line and \<open>Failed\<close> the error line of the handler.
\<close>

datatype build_event =
  Dir_not_found string
| No_files string
| Creating string
| Created string
| Failed string

text \<open>
  The platforms directory is the list of its subdirectories with their trees;
  \<^verbatim>\<open>platform_path.is_dir()\<close> is a successful lookup, \<^verbatim>\<open>list(platform_path.iterdir())\<close>
  is empty exactly when the tree is.  \<open>attempt\<close> tells for every archive name how
  the body of the \<^verbatim>\<open>try\<close> block ends.  The state of the loop is the counter, the
  lines printed so far and the files of the output directory.
\<close>

fun create_archives_loop ::
  "(string \<times> tree) list \<Rightarrow> (string \<Rightarrow> write_outcome) \<Rightarrow> string list \<Rightarrow>
   nat \<times> build_event list \<times> (string \<times> file_content) list \<Rightarrow>
   nat \<times> build_event list \<times> (string \<times> file_content) list" where
  "create_archives_loop platforms_dir attempt [] (created_count, printed, out) =
     (created_count, printed, out)"
| "create_archives_loop platforms_dir attempt (platform # rest) (created_count, printed, out) =
     (case map_of platforms_dir platform of
        None \<Rightarrow>
          create_archives_loop platforms_dir attempt rest
            (created_count, printed @ [Dir_not_found platform], out)
      | Some files \<Rightarrow>
          if files = [] then
            create_archives_loop platforms_dir attempt rest
              (created_count, printed @ [No_files platform], out)
          else
            (let (archive_name, archive_type) = get_archive_info platform in
             case attempt archive_name of
               Written \<Rightarrow>
                 create_archives_loop platforms_dir attempt rest
                   (created_count + 1,
                    printed @ [Creating archive_name, Created archive_name],
                    AList.update archive_name
                      (if archive_type = ''zip'' then create_zip files else create_tar_gz files) out)
             | Write_failed left \<Rightarrow>
                 create_archives_loop platforms_dir attempt rest
                   (created_count,
                    printed @ [Creating archive_name, Failed archive_name],
                    if left then AList.update archive_name Not_an_archive out else out)))"

definition create_platform_archives ::
  "(string \<times> tree) list \<Rightarrow> (string \<Rightarrow> write_outcome) \<Rightarrow> (string \<times> file_content) list \<Rightarrow>
   nat \<times> build_event list \<times> (string \<times> file_content) list" where
  "create_platform_archives platforms_dir attempt out =
     create_archives_loop platforms_dir attempt PLATFORMS (0, [], out)"

text \<open>
  \<^verbatim>\<open>main\<close>: the exit status, the lines printed by \<^verbatim>\<open>create_platform_archives\<close> and
  the output directory.  \<open>None\<close> is a platforms directory that is not a
  directory.
\<close>

definition main_create ::
  "string list \<Rightarrow> (string \<times> tree) list option \<Rightarrow> (string \<Rightarrow> write_outcome) \<Rightarrow>
   (string \<times> file_content) list \<Rightarrow> int \<times> build_event list \<times> (string \<times> file_content) list" where
  "main_create argv platforms_dir attempt out =
     (if length argv > 1 \<and> (argv ! 1 = ''-h'' \<or> argv ! 1 = ''--help'') then (0, [], out)
      else case platforms_dir of
        None \<Rightarrow> (1, [], out)
      | Some d \<Rightarrow>
          (let (count, printed, out') = create_platform_archives d attempt out
           in if count = 0 then (1, printed, out') else (0, printed, out')))"

text \<open>
  Notions of the specification: a platform is built when its subdirectory
  exists, is not empty and its archive gets written; what is printed for one
  platform; what is written for it.
\<close>

definition built :: "(string \<times> tree) list \<Rightarrow> (string \<Rightarrow> write_outcome) \<Rightarrow> string \<Rightarrow> bool" where
  "built platforms_dir attempt platform =
     (case map_of platforms_dir platform of
        None \<Rightarrow> False
      | Some files \<Rightarrow> files \<noteq> [] \<and> attempt (fst (get_archive_info platform)) = Written)"

definition platform_report ::
  "(string \<times> tree) list \<Rightarrow> (string \<Rightarrow> write_outcome) \<Rightarrow> string \<Rightarrow> build_event list" where
  "platform_report platforms_dir attempt platform =
     (case map_of platforms_dir platform of
        None \<Rightarrow> [Dir_not_found platform]
      | Some files \<Rightarrow>
          if files = [] then [No_files platform]
          else (case attempt (fst (get_archive_info platform)) of
                  Written \<Rightarrow> [Creating (fst (get_archive_info platform)),
                               Created (fst (get_archive_info platform))]
                | Write_failed left \<Rightarrow> [Creating (fst (get_archive_info platform)),
                                       Failed (fst (get_archive_info platform))]))"

definition is_created :: "build_event \<Rightarrow> bool" where
  "is_created e = (case e of Created a \<Rightarrow> True | _ \<Rightarrow> False)"

definition archive_of :: "string \<Rightarrow> tree \<Rightarrow> file_content" where
  "archive_of platform files =
     (if startswith platform ''windows'' then Packed (zip_tree files) else Packed (tar_tree files))"

definition platform_write ::
  "(string \<times> tree) list \<Rightarrow> (string \<Rightarrow> write_outcome) \<Rightarrow> string \<Rightarrow>
   (string \<times> file_content) list \<Rightarrow> (string \<times> file_content) list" where
  "platform_write platforms_dir attempt platform out =
     (case map_of platforms_dir platform of
        None \<Rightarrow> out
      | Some files \<Rightarrow>
          if files = [] then out
          else (case attempt (fst (get_archive_info platform)) of
                  Written \<Rightarrow>
                    AList.update (fst (get_archive_info platform)) (archive_of platform files) out
                | Write_failed left \<Rightarrow>
                    if left then AList.update (fst (get_archive_info platform)) Not_an_archive out
                    else out))"

definition asks_help :: "string list \<Rightarrow> bool" where
  "asks_help argv = (length argv > 1 \<and> (argv ! 1 = ''-h'' \<or> argv ! 1 = ''--help''))"

text \<open>The directory of the examples: only \<^verbatim>\<open>linux-amd64\<close> is populated.\<close>

definition only_linux :: "(string \<times> tree) list" where
  "only_linux = [(''linux-amd64'', [([''portunix''], File ''ELF'')]), (''darwin-amd64'', [])]"

section \<open>\<^verbatim>\<open>make-release.py\<close>: the tagged build\<close>

text \<open>
  \<^verbatim>\<open>run_command\<close> hands a command to \<^verbatim>\<open>subprocess.run\<close>.  The model works with the
  outcome of that call: the process ran and exited with a return code, it could
  not be launched (\<^verbatim>\<open>FileNotFoundError\<close>, which \<^verbatim>\<open>check_dependencies\<close> of the same
  script handles for the same command), or the wait was interrupted
  (\<^verbatim>\<open>KeyboardInterrupt\<close>).  With \<^verbatim>\<open>check=True\<close> a non-zero return code raises
  \<^verbatim>\<open>CalledProcessError\<close>.
\<close>

datatype proc_outcome = Exited int | Not_launched | Interrupted

datatype proc_error = CalledProcessError | FileNotFoundError | KeyboardInterrupt

definition run_command :: "proc_outcome \<Rightarrow> bool \<Rightarrow> proc_error + int" where
  "run_command outcome check =
     (case outcome of
        Exited returncode \<Rightarrow> if check \<and> returncode \<noteq> 0 then Inl CalledProcessError else Inr returncode
      | Not_launched \<Rightarrow> Inl FileNotFoundError
      | Interrupted \<Rightarrow> Inl KeyboardInterrupt)"

text \<open>
  The repository is the list of its tags, and \<^verbatim>\<open>git\<close> works: \<^verbatim>\<open>git tag -d v\<close>
  deletes an existing tag and fails on a missing one, \<^verbatim>\<open>git tag v\<close> creates a
  missing tag and fails on an existing one.
\<close>

definition git_tag_delete :: "string \<Rightarrow> string list \<Rightarrow> proc_outcome \<times> string list" where
  "git_tag_delete version tags =
     (if version \<in> set tags then (Exited 0, removeAll version tags) else (Exited 1, tags))"

definition git_tag_create :: "string \<Rightarrow> string list \<Rightarrow> proc_outcome \<times> string list" where
  "git_tag_create version tags =
     (if version \<in> set tags then (Exited 128, tags) else (Exited 0, tags @ [version]))"

text \<open>
  The handler \<^verbatim>\<open>except subprocess.CalledProcessError\<close>: the tag is deleted with
  \<^verbatim>\<open>check=False\<close> inside a \<^verbatim>\<open>try\<close> that ignores every exception, the error is
  printed and \<open>False\<close> returned.
\<close>

definition on_called_process_error ::
  "string \<Rightarrow> string list \<Rightarrow> (proc_error + bool) \<times> string list \<times> string list" where
  "on_called_process_error version tags =
     (Inr False, snd (git_tag_delete version tags), [''GoReleaser failed''])"

text \<open>
  \<^verbatim>\<open>run_goreleaser\<close>: the value returned or the exception that leaves the function,
  the tags of the repository afterwards, and what \<^verbatim>\<open>print_error\<close> printed.
  \<open>build\<close> is the outcome of running the given GoReleaser command.  The removal
  of a previous \<^verbatim>\<open>dist/\<close> directory does not touch the tags and is left out.
\<close>

definition run_goreleaser ::
  "string \<Rightarrow> string \<Rightarrow> (string \<Rightarrow> proc_outcome) \<Rightarrow> string list \<Rightarrow>
   (proc_error + bool) \<times> string list \<times> string list" where
  "run_goreleaser version goreleaser_cmd build tags =
     (let tags1 = snd (git_tag_delete version tags);
          (created, tags2) = git_tag_create version tags1
      in case run_command created True of
           Inl e \<Rightarrow> (Inl e, tags2, [])
         | Inr rc \<Rightarrow>
             (case run_command (build goreleaser_cmd) True of
                Inr rc \<Rightarrow>
                  (let (deleted, tags3) = git_tag_delete version tags2
                   in case run_command deleted True of
                        Inr rc \<Rightarrow> (Inr True, tags3, [])
                      | Inl CalledProcessError \<Rightarrow> on_called_process_error version tags3
                      | Inl e \<Rightarrow> (Inl e, tags3, []))
              | Inl CalledProcessError \<Rightarrow> on_called_process_error version tags2
              | Inl e \<Rightarrow> (Inl e, tags2, [])))"

section \<open>\<^verbatim>\<open>make-release.py\<close>: injection of the platform archives\<close>

text \<open>
  The \<^verbatim>\<open>dist\<close> directory: the regular files of \<^verbatim>\<open>dist/platforms\<close> with their
  bytes (\<open>None\<close> when that directory does not exist), and the files of \<^verbatim>\<open>dist\<close>
  itself.  A real directory lists every name once; of a listing that repeats
  a name only the first entry counts.
\<close>

record dist_dir =
  platform_files :: "(string \<times> string) list option"
  dist_files :: "(string \<times> file_content) list"

datatype inject_error = BadArchive | FileExistsError | IsADirectoryError | WriteError

text \<open>
  The lines printed: the warning of the skipped phase, the line before and the
  line after each archive, and the final line.
\<close>

datatype inject_event = Skipped | Processing string | Added string | Injected_all

text \<open>
  \<^verbatim>\<open>dist_dir.glob("portunix_*.tar.gz")\<close> followed by \<^verbatim>\<open>dist_dir.glob("portunix_*.zip")\<close>,
  and the two \<^verbatim>\<open>glob\<close> calls on the platforms directory.
\<close>

definition is_release_tar :: "string \<Rightarrow> bool" where
  "is_release_tar name =
     (startswith name ''portunix_'' \<and> endswith name ''.tar.gz'' \<and> 16 \<le> length name)"

definition is_release_zip :: "string \<Rightarrow> bool" where
  "is_release_zip name =
     (startswith name ''portunix_'' \<and> endswith name ''.zip'' \<and> 13 \<le> length name)"

definition release_archives :: "(string \<times> file_content) list \<Rightarrow> string list" where
  "release_archives files =
     (let names = map fst (AList.clearjunk files)
      in filter is_release_tar names @ filter is_release_zip names)"

definition platform_archives :: "(string \<times> string) list \<Rightarrow> (string \<times> string) list" where
  "platform_archives pfs =
     (let listing = AList.clearjunk pfs
      in filter (\<lambda>f. endswith (fst f) ''.tar.gz'') listing @
         filter (\<lambda>f. endswith (fst f) ''.zip'') listing)"

text \<open>
  The steps on the scratch directory.  \<^verbatim>\<open>extractall\<close> raises on a file that is
  not an archive; the extracted directory holds every path once (of a listing
  that repeats a path only the first entry counts).  \<^verbatim>\<open>mkdir(exist_ok=True)\<close> accepts an existing directory and
  raises on an existing file.  \<^verbatim>\<open>shutil.copy2(src, directory)\<close> writes the file
  \<^verbatim>\<open>directory/name\<close>, replacing a file of that name and raising on a directory
  of that name.
\<close>

definition extractall :: "file_content \<Rightarrow> inject_error + tree" where
  "extractall content =
     (case content of Not_an_archive \<Rightarrow> Inl BadArchive | Packed t \<Rightarrow> Inr (AList.clearjunk t))"

definition mkdir_exist_ok :: "path \<Rightarrow> tree \<Rightarrow> inject_error + tree" where
  "mkdir_exist_ok p t =
     (case map_of t p of
        None \<Rightarrow> Inr (t @ [(p, Dir)])
      | Some Dir \<Rightarrow> Inr t
      | Some (File c) \<Rightarrow> Inl FileExistsError)"

definition copy2 :: "string \<times> string \<Rightarrow> path \<Rightarrow> tree \<Rightarrow> inject_error + tree" where
  "copy2 src dest t =
     (case map_of t (dest @ [fst src]) of
        Some Dir \<Rightarrow> Inl IsADirectoryError
      | _ \<Rightarrow> Inr (AList.update (dest @ [fst src]) (File (snd src)) t))"

fun copy_all :: "(string \<times> string) list \<Rightarrow> path \<Rightarrow> tree \<Rightarrow> inject_error + tree" where
  "copy_all [] dest t = Inr t"
| "copy_all (src # rest) dest t =
     (case copy2 src dest t of Inl e \<Rightarrow> Inl e | Inr t' \<Rightarrow> copy_all rest dest t')"

text \<open>
  The body of the loop for one release archive: extract, add \<^verbatim>\<open>platforms/\<close>, copy
  the platform archives, delete the archive and write it again in the format of
  its name.  The result is the \<^verbatim>\<open>dist\<close> listing afterwards and the exception
  raised, if any.  \<open>attempt\<close> tells how writing the new archive ends.
\<close>

definition inject_archive ::
  "(string \<times> string) list \<Rightarrow> (string \<Rightarrow> write_outcome) \<Rightarrow> string \<Rightarrow>
   (string \<times> file_content) list \<Rightarrow> (string \<times> file_content) list \<times> inject_error option" where
  "inject_archive pfs attempt archive_name files =
     (case map_of files archive_name of
        None \<Rightarrow> (files, Some BadArchive)
      | Some content \<Rightarrow>
          (case extractall content of
             Inl e \<Rightarrow> (files, Some e)
           | Inr temp \<Rightarrow>
               (case mkdir_exist_ok [''platforms''] temp of
                  Inl e \<Rightarrow> (files, Some e)
                | Inr temp1 \<Rightarrow>
                    (case copy_all (platform_archives pfs) [''platforms''] temp1 of
                       Inl e \<Rightarrow> (files, Some e)
                     | Inr temp2 \<Rightarrow>
                         (let files1 = AList.delete archive_name files in
                          case attempt archive_name of
                            Written \<Rightarrow>
                              (AList.update archive_name
                                 (Packed (if endswith archive_name ''.zip'' then zip_tree temp2
                                          else tar_tree temp2)) files1,
                               None)
                          | Write_failed left \<Rightarrow>
                              (if left then AList.update archive_name Not_an_archive files1
                               else files1,
                               Some WriteError))))))"

text \<open>
  The loop has no exception handler: the first exception ends it.
\<close>

fun inject_loop ::
  "(string \<times> string) list \<Rightarrow> (string \<Rightarrow> write_outcome) \<Rightarrow> string list \<Rightarrow>
   (string \<times> file_content) list \<Rightarrow>
   (string \<times> file_content) list \<times> inject_event list \<times> inject_error option" where
  "inject_loop pfs attempt [] files = (files, [], None)"
| "inject_loop pfs attempt (archive_name # rest) files =
     (case inject_archive pfs attempt archive_name files of
        (files1, Some e) \<Rightarrow> (files1, [Processing archive_name], Some e)
      | (files1, None) \<Rightarrow>
          (let (files2, printed, r) = inject_loop pfs attempt rest files1
           in (files2, [Processing archive_name, Added archive_name] @ printed, r)))"

definition inject_platform_archives ::
  "(string \<Rightarrow> write_outcome) \<Rightarrow> dist_dir \<Rightarrow> dist_dir \<times> inject_event list \<times> inject_error option" where
  "inject_platform_archives attempt dist =
     (case platform_files dist of
        None \<Rightarrow> (dist, [Skipped], None)
      | Some pfs \<Rightarrow>
          (let (files', printed, r) =
                 inject_loop pfs attempt (release_archives (dist_files dist)) (dist_files dist)
           in (dist\<lparr>dist_files := files'\<rparr>,
               printed @ (if r = None then [Injected_all] else []), r)))"

text \<open>
  Notions of the specification: the scratch tree with \<^verbatim>\<open>platforms/\<close> filled,
  the condition under which filling it raises nothing (no file is in the way of
  the directory, no directory in the way of a copied file), the tree of the
  archive written from it, and the paths the platform archives are copied to.
\<close>

definition with_platforms :: "(string \<times> string) list \<Rightarrow> tree \<Rightarrow> tree" where
  "with_platforms pfs t =
     fold (\<lambda>src. AList.update [''platforms'', fst src] (File (snd src))) (platform_archives pfs)
       (case map_of t [''platforms''] of
          None \<Rightarrow> AList.clearjunk t @ [([''platforms''], Dir)]
        | Some e \<Rightarrow> AList.clearjunk t)"

definition can_inject :: "(string \<times> string) list \<Rightarrow> tree \<Rightarrow> bool" where
  "can_inject pfs t =
     ((case map_of t [''platforms''] of Some (File c) \<Rightarrow> False | _ \<Rightarrow> True) \<and>
      list_all (\<lambda>src. map_of t [''platforms'', fst src] \<noteq> Some Dir) (platform_archives pfs))"

definition repacked :: "string \<Rightarrow> tree \<Rightarrow> tree" where
  "repacked archive_name t = (if endswith archive_name ''.zip'' then zip_tree t else tar_tree t)"

definition injected_path :: "(string \<times> string) list \<Rightarrow> path \<Rightarrow> bool" where
  "injected_path pfs p = list_ex (\<lambda>src. p = [''platforms'', fst src]) (platform_archives pfs)"

text \<open>The directories of the examples.\<close>

definition two_platform_files :: "(string \<times> string) list" where
  "two_platform_files =
     [(''linux-amd64.tar.gz'', ''TGZ-BYTES''), (''windows-amd64.zip'', ''ZIP-BYTES''),
      (''notes.txt'', ''n'')]"

definition release_tree :: tree where
  "release_tree = [([''portunix''], File ''ELF''), ([''docs''], Dir), ([''docs'', ''README.md''], File ''readme'')]"

definition example_dist :: dist_dir where
  "example_dist =
     \<lparr>platform_files = Some two_platform_files,
      dist_files = [(''checksums.txt'', Not_an_archive),
                    (''portunix_1.2.3_windows_amd64.zip'', Packed release_tree),
                    (''portunix_1.2.3_linux_amd64.tar.gz'', Packed release_tree)]\<rparr>"

definition stale_dist :: dist_dir where
  "stale_dist =
     \<lparr>platform_files = Some [(''linux-amd64.tar.gz'', ''NEW'')],
      dist_files = [(''portunix_1.2.3_linux_amd64.tar.gz'',
                     Packed [([''portunix''], File ''ELF''), ([''platforms''], Dir),
                             ([''platforms'', ''linux-amd64.tar.gz''], File ''OLD'')])]\<rparr>"




chapter \<open>Verification\<close>

section \<open>Version validation\<close>

text \<open>
  The matcher is characterised piece by piece: the set of cursors a step can
  reach is described by a decomposition of the input.
\<close>

lemma step_Lit_set: "set (step (Lit a) (b, s)) = {(False, t) | t. s = a # t}"
  by (cases s) auto

lemma step_Digit_set: "set (step Digit (b, s)) = {(False, t) | t. \<exists>d. is_ascii_digit d \<and> s = d # t}"
  by (cases s) auto

lemma iter_Digit_set:
  "set (iter n (step Digit) (b, s)) =
     {(False, t) | t. \<exists>ds. digits1 ds \<and> length ds \<le> n \<and> s = ds @ t}"
proof (induction n arbitrary: b s)
  case 0
  show ?case by (auto simp: digits1_def)
next
  case (Suc n)
  show ?case
  proof (intro set_eqI iffI)
    fix c assume "c \<in> set (iter (Suc n) (step Digit) (b, s))"
    then obtain d t where s: "s = d # t" and d: "is_ascii_digit d"
      and c: "c \<in> set (iter n (step Digit) (False, t)) \<or> c = (False, t)"
      by (cases s) (auto split: if_splits)
    from c show "c \<in> {(False, t) | t. \<exists>ds. digits1 ds \<and> length ds \<le> Suc n \<and> s = ds @ t}"
    proof
      assume "c \<in> set (iter n (step Digit) (False, t))"
      then obtain u ds where "c = (False, u)" "digits1 ds" "length ds \<le> n" "t = ds @ u"
        unfolding Suc.IH by auto
      then have "digits1 (d # ds) \<and> length (d # ds) \<le> Suc n \<and> s = (d # ds) @ u"
        using s d by (simp add: digits1_def)
      then show ?thesis using \<open>c = (False, u)\<close> by blast
    next
      assume "c = (False, t)"
      moreover have "digits1 [d] \<and> length [d] \<le> Suc n \<and> s = [d] @ t"
        using s d by (simp add: digits1_def)
      ultimately show ?thesis by blast
    qed
  next
    fix c assume "c \<in> {(False, t) | t. \<exists>ds. digits1 ds \<and> length ds \<le> Suc n \<and> s = ds @ t}"
    then obtain u ds where c: "c = (False, u)" and ds: "digits1 ds" "length ds \<le> Suc n" "s = ds @ u"
      by auto
    then obtain d ds' where dd: "ds = d # ds'" by (cases ds) (auto simp: digits1_def)
    have d: "is_ascii_digit d" using ds dd by (simp add: digits1_def)
    show "c \<in> set (iter (Suc n) (step Digit) (b, s))"
    proof (cases "ds' = []")
      case True
      then show ?thesis using c ds dd d by simp
    next
      case False
      then have "digits1 ds' \<and> length ds' \<le> n \<and> ds' @ u = ds' @ u"
        using ds dd by (simp add: digits1_def)
      then have "c \<in> set (iter n (step Digit) (False, ds' @ u))"
        unfolding Suc.IH using c by blast
      then show ?thesis using ds dd d by simp
    qed
  qed
qed

lemma step_Plus_Digit_set:
  "set (step (Plus Digit) (b, s)) = {(False, t) | t. \<exists>ds. digits1 ds \<and> s = ds @ t}"
proof -
  have "set (step (Plus Digit) (b, s)) = set (iter (length s) (step Digit) (b, s))"
    by (simp del: step.simps(4))
  also have "\<dots> = {(False, t) | t. \<exists>ds. digits1 ds \<and> length ds \<le> length s \<and> s = ds @ t}"
    by (rule iter_Digit_set)
  also have "\<dots> = {(False, t) | t. \<exists>ds. digits1 ds \<and> s = ds @ t}"
    by auto
  finally show ?thesis .
qed

lemma step_Cat_set: "set (step (Cat r1 r2) c) = (\<Union>c' \<in> set (step r1 c). set (step r2 c'))"
  by simp

lemma step_snapshot_set:
  "set (step (lits ''-SNAPSHOT'') (b, s)) = {(False, t) | t. s = ''-SNAPSHOT'' @ t}"
  unfolding lits_def
  apply (simp only: butlast.simps last.simps foldr.simps o_apply list.simps if_False if_True step_Cat_set step_Lit_set)
  apply auto
  done



lemma accepts_set: "accepts r c = (\<exists>x. x \<in> set (step r c))"
  by (cases "step r c") (auto simp: accepts_def)

lemma accepts_Cat: "accepts (Cat r1 r2) c = (\<exists>c' \<in> set (step r1 c). accepts r2 c')"
  unfolding accepts_set step_Cat_set by blast

lemma accepts_Bol: "accepts (Cat Bol r) (True, s) = accepts r (True, s)"
  unfolding accepts_Cat by simp

lemma accepts_Lit: "accepts (Cat (Lit a) r) (b, s) = (\<exists>t. s = a # t \<and> accepts r (False, t))"
  unfolding accepts_Cat step_Lit_set by blast

lemma accepts_Plus_Digit:
  "accepts (Cat (Plus Digit) r) (b, s) = (\<exists>ds t. digits1 ds \<and> s = ds @ t \<and> accepts r (False, t))"
  unfolding accepts_Cat step_Plus_Digit_set by blast

lemma accepts_snapshot:
  "accepts (Cat (lits ''-SNAPSHOT'') r) (b, s) = (\<exists>t. s = ''-SNAPSHOT'' @ t \<and> accepts r (False, t))"
  unfolding accepts_Cat step_snapshot_set by blast

lemma accepts_Opt: "accepts (Cat (Opt q) r) c = (accepts (Cat q r) c \<or> accepts r c)"
  unfolding accepts_Cat by auto

lemma accepts_Eol: "accepts Eol (b, s) = (s = [] \<or> s = [CHR 0x0A])"
  unfolding accepts_def by simp

lemma accepts_tail:
  "accepts tail_re (b, s) = (\<exists>sfx fin. s = sfx @ fin \<and> tail_ok sfx fin)"
  (is "?L = ?R")
proof -
  have "?L = ((\<exists>t. s = ''-SNAPSHOT'' @ t \<and> (t = [] \<or> t = [CHR 0x0A])) \<or> (s = [] \<or> s = [CHR 0x0A]))"
    unfolding tail_re_def by (simp only: accepts_Opt accepts_snapshot accepts_Eol)
  also have "\<dots> = ?R"
  proof
    assume "(\<exists>t. s = ''-SNAPSHOT'' @ t \<and> (t = [] \<or> t = [CHR 0x0A])) \<or> (s = [] \<or> s = [CHR 0x0A])"
    then show ?R
    proof
      assume "\<exists>t. s = ''-SNAPSHOT'' @ t \<and> (t = [] \<or> t = [CHR 0x0A])"
      then obtain t where "s = ''-SNAPSHOT'' @ t \<and> tail_ok ''-SNAPSHOT'' t"
        unfolding tail_ok_def by auto
      then show ?R by (rule_tac x = "''-SNAPSHOT''" in exI) (rule_tac x = t in exI)
    next
      assume "s = [] \<or> s = [CHR 0x0A]"
      then have "s = [] @ s \<and> tail_ok [] s" by (simp add: tail_ok_def)
      then show ?R by (rule_tac x = "[]" in exI) (rule_tac x = s in exI)
    qed
  next
    assume ?R
    then obtain sfx fin where "s = sfx @ fin" "sfx = [] \<or> sfx = ''-SNAPSHOT''" "fin = [] \<or> fin = [CHR 0x0A]"
      unfolding tail_ok_def by auto
    then show "(\<exists>t. s = ''-SNAPSHOT'' @ t \<and> (t = [] \<or> t = [CHR 0x0A])) \<or> (s = [] \<or> s = [CHR 0x0A])"
      by auto
  qed
  finally show ?thesis .
qed


lemma accepts_pattern:
  "accepts pattern (True, s) =
     (\<exists>a b c sfx fin. s = CHR ''v'' # a @ CHR ''.'' # b @ CHR ''.'' # c @ sfx @ fin \<and>
         digits1 a \<and> digits1 b \<and> digits1 c \<and> tail_ok sfx fin)"
  (is "?L = ?R")
proof -
  let ?r3 = "Cat (Plus Digit) tail_re"
  let ?r2 = "Cat (Plus Digit) (Cat (Lit CHR ''.'') ?r3)"
  let ?r1 = "Cat (Plus Digit) (Cat (Lit CHR ''.'') ?r2)"
  have p: "pattern = Cat Bol (Cat (Lit CHR ''v'') ?r1)"
    by (simp add: pattern_def tail_re_def)
  show ?thesis
  proof
    assume ?L
    then have "accepts (Cat (Lit CHR ''v'') ?r1) (True, s)"
      unfolding p by (simp only: accepts_Bol)
    then obtain t where t: "s = CHR ''v'' # t" "accepts ?r1 (False, t)"
      unfolding accepts_Lit by blast
    from t(2) obtain a t1 where a: "digits1 a" "t = a @ t1" "accepts (Cat (Lit CHR ''.'') ?r2) (False, t1)"
      unfolding accepts_Plus_Digit [of "Cat (Lit CHR ''.'') ?r2"] by blast
    from a(3) obtain t2 where t2: "t1 = CHR ''.'' # t2" "accepts ?r2 (False, t2)"
      unfolding accepts_Lit by blast
    from t2(2) obtain b t3 where b: "digits1 b" "t2 = b @ t3" "accepts (Cat (Lit CHR ''.'') ?r3) (False, t3)"
      unfolding accepts_Plus_Digit [of "Cat (Lit CHR ''.'') ?r3"] by blast
    from b(3) obtain t4 where t4: "t3 = CHR ''.'' # t4" "accepts ?r3 (False, t4)"
      unfolding accepts_Lit by blast
    from t4(2) obtain c t5 where c: "digits1 c" "t4 = c @ t5" "accepts tail_re (False, t5)"
      unfolding accepts_Plus_Digit [of tail_re] by blast
    from c(3) obtain sfx fin where f: "t5 = sfx @ fin" "tail_ok sfx fin"
      unfolding accepts_tail by blast
    have "s = CHR ''v'' # a @ CHR ''.'' # b @ CHR ''.'' # c @ sfx @ fin"
      using t(1) a(2) t2(1) b(2) t4(1) c(2) f(1) by simp
    then show ?R using a(1) b(1) c(1) f(2) by blast
  next
    assume ?R
    then obtain a b c sfx fin where s: "s = CHR ''v'' # a @ CHR ''.'' # b @ CHR ''.'' # c @ sfx @ fin"
      and d: "digits1 a" "digits1 b" "digits1 c" and f: "tail_ok sfx fin" by blast
    have 1: "accepts tail_re (False, sfx @ fin)"
      unfolding accepts_tail using f by blast
    have 2: "accepts ?r3 (False, c @ sfx @ fin)"
      unfolding accepts_Plus_Digit [of tail_re] using 1 d(3) by blast
    have 3: "accepts (Cat (Lit CHR ''.'') ?r3) (False, CHR ''.'' # c @ sfx @ fin)"
      unfolding accepts_Lit using 2 by blast
    have 4: "accepts ?r2 (False, b @ CHR ''.'' # c @ sfx @ fin)"
      unfolding accepts_Plus_Digit [of "Cat (Lit CHR ''.'') ?r3"] using 3 d(2) by blast
    have 5: "accepts (Cat (Lit CHR ''.'') ?r2) (False, CHR ''.'' # b @ CHR ''.'' # c @ sfx @ fin)"
      unfolding accepts_Lit using 4 by blast
    have 6: "accepts ?r1 (False, a @ CHR ''.'' # b @ CHR ''.'' # c @ sfx @ fin)"
      unfolding accepts_Plus_Digit [of "Cat (Lit CHR ''.'') ?r2"] using 5 d(1) by blast
    have 7: "accepts (Cat (Lit CHR ''v'') ?r1) (True, s)"
      unfolding accepts_Lit s using 6 by blast
    then show ?L unfolding p by (simp only: accepts_Bol)
  qed
qed

lemma validate_version_iff: "validate_version s = py_version_format s"
proof -
  have "validate_version s = accepts pattern (True, s)"
    by (simp add: validate_version_def re_match_def accepts_def)
  also have "\<dots> = py_version_format s"
  proof
    assume "accepts pattern (True, s)"
    then obtain a b c sfx fin where s: "s = CHR ''v'' # a @ CHR ''.'' # b @ CHR ''.'' # c @ sfx @ fin"
       and d:  "digits1 a" "digits1 b" "digits1 c" and f: "tail_ok sfx fin"
      unfolding accepts_pattern by blast
    let ?t = "''v'' @ a @ ''.'' @ b @ ''.'' @ c @ sfx"
    have "?t = ''v'' @ a @ ''.'' @ b @ ''.'' @ c @ sfx \<and> digits1 a \<and> digits1 b \<and> digits1 c
       \<and> (sfx = [] \<or> sfx = ''-SNAPSHOT'')"
      using d f by (simp add: tail_ok_def)
    then have vf: "version_format ?t" unfolding version_format_def by blast
    from f have "fin = [] \<or> fin = [CHR 0x0A]" by (simp add: tail_ok_def)
    then show "py_version_format s"
    proof
      assume "fin = []"
      then have "s = ?t" using s by simp
      then show ?thesis using vf by (simp add: py_version_format_def)
    next
      assume "fin = [CHR 0x0A]"
      then have "s = ?t @ [CHR 0x0A]" using s by simp
      then show ?thesis using vf unfolding py_version_format_def by blast
    qed
  next
    assume "py_version_format s"
    then have "\<exists>t fin. s = t @ fin \<and> (fin = [] \<or> fin = [CHR 0x0A]) \<and> version_format t"
    proof (unfold py_version_format_def, elim disjE exE conjE)
      assume "version_format s"
      then have "s = s @ [] \<and> ([] = [] \<or> [] = [CHR 0x0A]) \<and> version_format s" by simp
      then show ?thesis by blast
    next
      fix t assume "s = t @ [CHR 0x0A]" "version_format t"
      then show ?thesis by blast
    qed
    then obtain t fin where s: "s = t @ fin" and fin: "fin = [] \<or> fin = [CHR 0x0A]"
      and "version_format t" by blast
    then obtain a b c sfx where "t = ''v'' @ a @ ''.'' @ b @ ''.'' @ c @ sfx"
      "digits1 a" "digits1 b" "digits1 c" "sfx = [] \<or> sfx = ''-SNAPSHOT''"
      unfolding version_format_def by blast
    then have "s = CHR ''v'' # a @ CHR ''.'' # b @ CHR ''.'' # c @ sfx @ fin \<and>
         digits1 a \<and> digits1 b \<and> digits1 c \<and> tail_ok sfx fin"
      using s fin by (simp add: tail_ok_def)
    then show "accepts pattern (True, s)" unfolding accepts_pattern by blast
  qed
  finally show ?thesis .
qed


lemma validate_version_False_main:
  assumes "\<not> validate_version s" and "s \<noteq> ''-h''" and "s \<noteq> ''--help''"
  shows "main_version_check [prog, s] = Inl (1, [invalid_version_message])"
  using assms by (simp add: main_version_check_def)

text \<open>
  Claim C9, as the code has it.  \<^verbatim>\<open>validate_version\<close> returns \<open>True\<close> exactly on
  the strings \<^verbatim>\<open>v<digits>.<digits>.<digits>\<close> with an optional \<^verbatim>\<open>-SNAPSHOT\<close>, the
  language of the pattern under \<^verbatim>\<open>re.match\<close> (whose \<^verbatim>\<open>$\<close> also admits one final
  newline).  On every other string it returns the plain boolean \<open>False\<close>; \<^verbatim>\<open>main\<close>
  then prints one fixed message and returns exit status 1, so the failure does
  not carry the offending string.
\<close>

theorem validate_version_accepts_exactly_the_pattern:
  "validate_version s = py_version_format s \<and>
   (\<not> py_version_format s \<and> s \<noteq> ''-h'' \<and> s \<noteq> ''--help'' \<longrightarrow>
      main_version_check [prog, s] = Inl (1, [invalid_version_message]))"
  using validate_version_iff [of s] validate_version_False_main [of s prog] by blast

text \<open>
  The examples of the claim, decided through the theorem by running the
  matcher: two accepted strings, three rejected ones, and the report of
  \<^verbatim>\<open>main\<close> for a rejected one.
\<close>

theorem validate_version_examples:
  "py_version_format ''v1.2.3'' \<and> py_version_format ''v1.2.3-SNAPSHOT'' \<and>
   \<not> py_version_format ''1.2.3'' \<and> \<not> py_version_format ''v1.2'' \<and>
   \<not> py_version_format ''version1'' \<and>
   main_version_check [''make-release.py'', ''v1.2''] = Inl (1, [invalid_version_message])"
proof -
  note t = validate_version_accepts_exactly_the_pattern
  have e1: "validate_version ''v1.2.3''" by code_simp
  have e2: "validate_version ''v1.2.3-SNAPSHOT''" by code_simp
  have e3: "\<not> validate_version ''1.2.3''" by code_simp
  have e4: "\<not> validate_version ''v1.2''" by code_simp
  have e5: "\<not> validate_version ''version1''" by code_simp
  have p1: "py_version_format ''v1.2.3''"
    using e1 unfolding t [of "''v1.2.3''" "[]", THEN conjunct1] .
  have p2: "py_version_format ''v1.2.3-SNAPSHOT''"
    using e2 unfolding t [of "''v1.2.3-SNAPSHOT''" "[]", THEN conjunct1] .
  have p3: "\<not> py_version_format ''1.2.3''"
    using e3 unfolding t [of "''1.2.3''" "[]", THEN conjunct1] .
  have p4: "\<not> py_version_format ''v1.2''"
    using e4 unfolding t [of "''v1.2''" "[]", THEN conjunct1] .
  have p5: "\<not> py_version_format ''version1''"
    using e5 unfolding t [of "''version1''" "[]", THEN conjunct1] .
  have n1: "''v1.2'' \<noteq> ''-h''" by simp
  have n2: "''v1.2'' \<noteq> ''--help''" by simp
  have m: "main_version_check [''make-release.py'', ''v1.2''] = Inl (1, [invalid_version_message])"
    by (rule t [of "''v1.2''" "''make-release.py''", THEN conjunct2, THEN mp]) (intro conjI p4 n1 n2)
  show ?thesis by (intro conjI p1 p2 p3 p4 p5 m)
qed

text \<open>
  The claim as stated fails in its last part: two different rejected strings
  lead to one and the same failure, which therefore cannot carry the offending
  string.
\<close>

theorem validation_failure_does_not_carry_the_string:
  "\<not> validate_version ''version1'' \<and> \<not> validate_version ''1.2.3'' \<and>
   main_version_check [''make-release.py'', ''version1''] = Inl (1, [invalid_version_message]) \<and>
   main_version_check [''make-release.py'', ''1.2.3''] =
     main_version_check [''make-release.py'', ''version1'']"
proof -
  have c1: "\<not> validate_version ''version1''" by code_simp
  have c2: "\<not> validate_version ''1.2.3''" by code_simp
  have c3: "main_version_check [''make-release.py'', ''version1''] = Inl (1, [invalid_version_message])"
    by code_simp
  have c4: "main_version_check [''make-release.py'', ''1.2.3''] =
     main_version_check [''make-release.py'', ''version1'']"
    by code_simp
  show ?thesis by (intro conjI c1 c2 c3 c4)
qed

section \<open>Release-note aggregation\<close>

subsection \<open>Sorting newest first\<close>


lemma those_eq_None: "those xs = None \<longleftrightarrow> None \<in> set xs"
  by (induction xs) (auto split: option.splits)




lemma sorted_newest_first_cases:
  "sorted_newest_first xs = Inl ValueError \<or> (\<exists>ys. sorted_newest_first xs = Inr ys)"
  unfolding sorted_newest_first_def by (auto split: option.splits)



subsection \<open>Rendering and integer conversion\<close>











subsection \<open>Ordering of the generated document\<close>



subsection \<open>When aggregation raises\<close>








subsection \<open>Validation errors\<close>







section \<open>The platform-archive builder\<close>

lemma create_archives_loop_eq:
  "create_archives_loop d attempt ps (c, pr, out) =
     (c + length (filter (built d attempt) ps),
      pr @ concat (map (platform_report d attempt) ps),
      fold (platform_write d attempt) ps out)"
proof (induction ps arbitrary: c pr out)
  case Nil
  show ?case by simp
next
  case (Cons p ps)
  show ?case
  proof (cases "map_of d p")
    case None
    then show ?thesis
      by (simp add: Cons.IH built_def platform_report_def platform_write_def)
  next
    case (Some files)
    show ?thesis
    proof (cases "files = []")
      case True
      then show ?thesis using Some
        by (simp add: Cons.IH built_def platform_report_def platform_write_def)
    next
      case False
      obtain name ty where gi: "get_archive_info p = (name, ty)" by (cases "get_archive_info p")
      have ty: "(ty = ''zip'') = startswith p ''windows''"
        using gi by (auto simp: get_archive_info_def split: if_splits)
      show ?thesis
      proof (cases "attempt name")
        case Written
        then show ?thesis using Some False gi ty
          by (simp add: Cons.IH built_def platform_report_def platform_write_def archive_of_def
              create_zip_def create_tar_gz_def)
      next
        case (Write_failed left)
        then show ?thesis using Some False gi
          by (simp add: Cons.IH built_def platform_report_def platform_write_def)
      qed
    qed
  qed
qed

lemma created_in_report:
  "length (filter is_created (platform_report d attempt p)) = (if built d attempt p then 1 else 0)"
  by (auto simp: platform_report_def built_def is_created_def split: option.splits write_outcome.splits)

lemma created_count_report:
  "length (filter is_created (concat (map (platform_report d attempt) ps))) =
     length (filter (built d attempt) ps)"
  by (induction ps) (simp_all add: created_in_report)

lemma archive_name_inj:
  assumes "fst (get_archive_info p) = fst (get_archive_info q)" shows "p = q"
proof -
  have z: "last (x @ ''.zip'') = CHR ''p''" for x :: string by simp
  have g: "last (x @ ''.tar.gz'') = CHR ''z''" for x :: string by simp
  show ?thesis
  proof (cases "startswith p ''windows''"; cases "startswith q ''windows''")
    assume "startswith p ''windows''" "\<not> startswith q ''windows''"
    with assms have "p @ ''.zip'' = q @ ''.tar.gz''" by (simp add: get_archive_info_def)
    then have "last (p @ ''.zip'') = last (q @ ''.tar.gz'')" by simp
    then show ?thesis unfolding z g by simp
  next
    assume "\<not> startswith p ''windows''" "startswith q ''windows''"
    with assms have "p @ ''.tar.gz'' = q @ ''.zip''" by (simp add: get_archive_info_def)
    then have "last (p @ ''.tar.gz'') = last (q @ ''.zip'')" by simp
    then show ?thesis unfolding z g by simp
  qed (use assms in \<open>simp_all add: get_archive_info_def\<close>)
qed

lemma platform_write_other:
  "n \<noteq> fst (get_archive_info q) \<Longrightarrow> map_of (platform_write d attempt q out) n = map_of out n"
  by (simp add: platform_write_def update_conv' split: option.splits write_outcome.splits)

lemma platform_write_built:
  "built d attempt p \<Longrightarrow> map_of d p = Some files \<Longrightarrow>
     map_of (platform_write d attempt p out) (fst (get_archive_info p)) = Some (archive_of p files)"
  by (simp add: built_def platform_write_def update_conv')

lemma fold_platform_write_other:
  "p \<notin> set ps \<Longrightarrow>
     map_of (fold (platform_write d attempt) ps out) (fst (get_archive_info p)) =
     map_of out (fst (get_archive_info p))"
proof (induction ps arbitrary: out)
  case Nil
  show ?case by simp
next
  case (Cons q ps)
  then have "fst (get_archive_info p) \<noteq> fst (get_archive_info q)"
    using archive_name_inj [of p q] by auto
  then show ?case using Cons by (simp add: platform_write_other)
qed

lemma fold_platform_write_built:
  "p \<in> set ps \<Longrightarrow> built d attempt p \<Longrightarrow> map_of d p = Some files \<Longrightarrow>
     map_of (fold (platform_write d attempt) ps out) (fst (get_archive_info p)) =
     Some (archive_of p files)"
proof (induction ps arbitrary: out)
  case Nil
  then show ?case by simp
next
  case (Cons q ps)
  show ?case
  proof (cases "p \<in> set ps")
    case True
    then show ?thesis using Cons by simp
  next
    case False
    then have "q = p" using Cons.prems(1) by simp
    then show ?thesis
      using False Cons.prems by (simp add: fold_platform_write_other platform_write_built)
  qed
qed

text \<open>
  Claim C6.  For every run over the fixed platform list: what is printed is,
  platform by platform, the warning for a missing or an empty subdirectory, or
  the pair of lines for an archive that was written or failed to be written;
  the returned count is the number of platforms whose archive was written,
  which is the number of success lines, and each of these archives is in the
  output directory; \<^verbatim>\<open>main\<close> returns 1 exactly when the count is zero.
\<close>

theorem platform_archive_builder_counts_what_it_creates:
  assumes "create_platform_archives d attempt out = (count, printed, out')"
  shows "printed = concat (map (platform_report d attempt) PLATFORMS) \<and>
         count = length (filter (built d attempt) PLATFORMS) \<and>
         count = length (filter is_created printed) \<and>
         (\<forall>p \<in> set PLATFORMS. \<forall>files. built d attempt p \<and> map_of d p = Some files \<longrightarrow>
            map_of out' (fst (get_archive_info p)) = Some (archive_of p files)) \<and>
         (\<not> asks_help argv \<longrightarrow>
            main_create argv (Some d) attempt out = (if count = 0 then 1 else 0, printed, out'))"
proof -
  from assms have c: "count = length (filter (built d attempt) PLATFORMS)"
    and p: "printed = concat (map (platform_report d attempt) PLATFORMS)"
    and o: "out' = fold (platform_write d attempt) PLATFORMS out"
    by (simp_all add: create_platform_archives_def create_archives_loop_eq)
  have 3: "count = length (filter is_created printed)"
    unfolding c p by (simp only: created_count_report)
  have 4: "\<forall>p \<in> set PLATFORMS. \<forall>files. built d attempt p \<and> map_of d p = Some files \<longrightarrow>
            map_of out' (fst (get_archive_info p)) = Some (archive_of p files)"
    unfolding o by (intro ballI allI impI) (simp add: fold_platform_write_built)
  have 5: "main_create argv (Some d) attempt out = (if count = 0 then 1 else 0, printed, out')"
    if "\<not> asks_help argv"
  proof -
    have nh: "(length argv > 1 \<and> (argv ! 1 = ''-h'' \<or> argv ! 1 = ''--help'')) = False"
      using that unfolding asks_help_def by simp
    show ?thesis unfolding main_create_def nh using assms by simp
  qed
  show ?thesis using c p 3 4 5 by (intro conjI impI) simp_all
qed

text \<open>
  With only \<^verbatim>\<open>linux-amd64\<close> populated the builder creates one archive and skips
  three platforms; when writing that archive fails, the failure is caught, the
  count is zero and \<^verbatim>\<open>main\<close> reports the failure.
\<close>

theorem builder_with_only_linux_populated:
  "create_platform_archives only_linux (\<lambda>name. Written) [] =
     (1,
      [Creating ''linux-amd64.tar.gz'', Created ''linux-amd64.tar.gz'',
       Dir_not_found ''linux-arm64'', Dir_not_found ''windows-amd64'', No_files ''darwin-amd64''],
      [(''linux-amd64.tar.gz'', Packed [([''portunix''], File ''ELF'')])]) \<and>
   (1::nat) = length (filter (built only_linux (\<lambda>name. Written)) PLATFORMS) \<and>
   main_create [''create-platform-archives.py''] (Some only_linux) (\<lambda>name. Written) [] =
     (0,
      [Creating ''linux-amd64.tar.gz'', Created ''linux-amd64.tar.gz'',
       Dir_not_found ''linux-arm64'', Dir_not_found ''windows-amd64'', No_files ''darwin-amd64''],
      [(''linux-amd64.tar.gz'', Packed [([''portunix''], File ''ELF'')])]) \<and>
   create_platform_archives only_linux (\<lambda>name. Write_failed False) [] =
     (0,
      [Creating ''linux-amd64.tar.gz'', Failed ''linux-amd64.tar.gz'',
       Dir_not_found ''linux-arm64'', Dir_not_found ''windows-amd64'', No_files ''darwin-amd64''],
      []) \<and>
   main_create [''create-platform-archives.py''] (Some only_linux) (\<lambda>name. Write_failed False) [] =
     (1,
      [Creating ''linux-amd64.tar.gz'', Failed ''linux-amd64.tar.gz'',
       Dir_not_found ''linux-arm64'', Dir_not_found ''windows-amd64'', No_files ''darwin-amd64''],
      [])"
proof -
  note t = platform_archive_builder_counts_what_it_creates
  have r1: "create_platform_archives only_linux (\<lambda>name. Written) [] =
     (1,
      [Creating ''linux-amd64.tar.gz'', Created ''linux-amd64.tar.gz'',
       Dir_not_found ''linux-arm64'', Dir_not_found ''windows-amd64'', No_files ''darwin-amd64''],
      [(''linux-amd64.tar.gz'', Packed [([''portunix''], File ''ELF'')])])"
    by code_simp
  have r2: "create_platform_archives only_linux (\<lambda>name. Write_failed False) [] =
     (0,
      [Creating ''linux-amd64.tar.gz'', Failed ''linux-amd64.tar.gz'',
       Dir_not_found ''linux-arm64'', Dir_not_found ''windows-amd64'', No_files ''darwin-amd64''],
      [])"
    by code_simp
  have h: "\<not> asks_help [''create-platform-archives.py'']" by (simp add: asks_help_def)
  have c1: "(1::nat) = length (filter (built only_linux (\<lambda>name. Written)) PLATFORMS)"
    by (rule t [OF r1, of "[]", THEN conjunct2, THEN conjunct1])
  have m1: "main_create [''create-platform-archives.py''] (Some only_linux) (\<lambda>name. Written) [] =
     (if (1::nat) = 0 then 1 else 0,
      [Creating ''linux-amd64.tar.gz'', Created ''linux-amd64.tar.gz'',
       Dir_not_found ''linux-arm64'', Dir_not_found ''windows-amd64'', No_files ''darwin-amd64''],
      [(''linux-amd64.tar.gz'', Packed [([''portunix''], File ''ELF'')])])"
    by (rule t [OF r1, of "[''create-platform-archives.py'']",
          THEN conjunct2, THEN conjunct2, THEN conjunct2, THEN conjunct2, THEN mp]) (rule h)
  have m2: "main_create [''create-platform-archives.py''] (Some only_linux) (\<lambda>name. Write_failed False) [] =
     (if (0::nat) = 0 then 1 else 0,
      [Creating ''linux-amd64.tar.gz'', Failed ''linux-amd64.tar.gz'',
       Dir_not_found ''linux-arm64'', Dir_not_found ''windows-amd64'', No_files ''darwin-amd64''],
      [])"
    by (rule t [OF r2, of "[''create-platform-archives.py'']",
          THEN conjunct2, THEN conjunct2, THEN conjunct2, THEN conjunct2, THEN mp]) (rule h)
  have i1: "(if (1::nat) = 0 then 1 else 0) = (0::int)" by simp
  have i2: "(if (0::nat) = 0 then 1 else 0) = (1::int)" by simp
  show ?thesis using r1 c1 m1 [unfolded i1] r2 m2 [unfolded i2] by (intro conjI)
qed

section \<open>The tagged build\<close>

text \<open>
  Whenever the build tool runs and exits, with whatever status, the temporary
  tag is gone when \<^verbatim>\<open>run_goreleaser\<close> returns, and the function returns \<open>True\<close>
  exactly for status 0.
\<close>

lemma run_goreleaser_removes_tag_when_build_exits:
  assumes "build goreleaser_cmd = Exited rc"
  shows "run_goreleaser version goreleaser_cmd build tags =
     (Inr (rc = 0), removeAll version tags, if rc = 0 then [] else [''GoReleaser failed''])"
  using assms
  by (auto simp: run_goreleaser_def git_tag_delete_def git_tag_create_def run_command_def
      on_called_process_error_def Let_def)

text \<open>
  For every other outcome the exception is not a \<^verbatim>\<open>CalledProcessError\<close>: it passes
  the handler and leaves the function while the tag still exists.
\<close>

lemma run_goreleaser_keeps_tag_otherwise:
  assumes "\<forall>rc. build goreleaser_cmd \<noteq> Exited rc"
  shows "version \<in> set (fst (snd (run_goreleaser version goreleaser_cmd build tags)))"
  using assms
  by (cases "build goreleaser_cmd")
     (auto simp: run_goreleaser_def git_tag_delete_def git_tag_create_def run_command_def
      on_called_process_error_def Let_def)

text \<open>
  Claim C3 at a build tool that cannot be launched, and at an interrupted
  build: \<^verbatim>\<open>run_goreleaser\<close> ends with the exception and the tag \<^verbatim>\<open>v1.2.3\<close> is still
  in the repository.
\<close>

theorem tag_survives_a_build_that_cannot_be_launched:
  "run_goreleaser ''v1.2.3'' ''goreleaser'' (\<lambda>cmd. Not_launched) [] =
     (Inl FileNotFoundError, [''v1.2.3''], []) \<and>
   run_goreleaser ''v1.2.3'' ''goreleaser'' (\<lambda>cmd. Interrupted) [] =
     (Inl KeyboardInterrupt, [''v1.2.3''], [])"
  by (simp add: run_goreleaser_def git_tag_delete_def git_tag_create_def run_command_def)

section \<open>Injection of the platform archives\<close>

subsection \<open>Listings, copies and one archive\<close>

lemma endswith_last:
  "endswith s suf \<Longrightarrow> suf \<noteq> [] \<Longrightarrow> last s = last suf"
proof -
  assume a: "endswith s suf" and ne: "suf \<noteq> []"
  then have "s = take (length s - length suf) s @ suf"
    by (metis append_take_drop_id endswith_def)
  then have "last s = last (take (length s - length suf) s @ suf)" by simp
  then show ?thesis using ne by simp
qed

lemma not_tar_and_zip: "\<not> (endswith n ''.tar.gz'' \<and> endswith n ''.zip'')"
proof
  assume a: "endswith n ''.tar.gz'' \<and> endswith n ''.zip''"
  have "last n = last ''.tar.gz''" using a by (intro endswith_last) simp_all
  moreover have "last n = last ''.zip''" using a by (intro endswith_last) simp_all
  ultimately show False by simp
qed

lemma distinct_fst_filter: "distinct (map fst xs) \<Longrightarrow> distinct (map fst (filter P xs))"
  by (induction xs) auto

lemma distinct_two_filters:
  assumes "distinct xs" and "\<And>x. \<not> (P x \<and> Q x)"
  shows "distinct (filter P xs @ filter Q xs)"
  using assms by auto

lemma platform_archives_distinct: "distinct (map fst (platform_archives pfs))"
proof -
  let ?l = "AList.clearjunk pfs"
  have d: "distinct (map fst ?l)" by (rule distinct_clearjunk)
  have "map fst (platform_archives pfs) =
        filter (\<lambda>n. endswith n ''.tar.gz'') (map fst ?l) @ filter (\<lambda>n. endswith n ''.zip'') (map fst ?l)"
    by (simp add: platform_archives_def Let_def filter_map comp_def)
  then show ?thesis using distinct_two_filters [OF d, of "\<lambda>n. endswith n ''.tar.gz''"
      "\<lambda>n. endswith n ''.zip''"] not_tar_and_zip by simp
qed

lemma release_archives_distinct: "distinct (release_archives files)"
proof -
  have d: "distinct (map fst (AList.clearjunk files))" by (rule distinct_clearjunk)
  have "\<And>n. \<not> (is_release_tar n \<and> is_release_zip n)"
    using not_tar_and_zip by (auto simp: is_release_tar_def is_release_zip_def)
  then show ?thesis
    unfolding release_archives_def Let_def by (rule distinct_two_filters [OF d])
qed

lemma release_archives_set:
  "set (release_archives files) =
     {n \<in> fst ` set files. is_release_tar n \<or> is_release_zip n}"
proof -
  have "fst ` set (AList.clearjunk files) = fst ` set files" by (rule dom_clearjunk)
  then have "set (map fst (AList.clearjunk files)) = fst ` set files" by simp
  then show ?thesis unfolding release_archives_def Let_def by auto
qed

lemma copy_all_Inr:
  "copy_all srcs dest t = Inr t' \<Longrightarrow>
     t' = fold (\<lambda>src. AList.update (dest @ [fst src]) (File (snd src))) srcs t"
  by (induction srcs arbitrary: t) (auto simp: copy2_def split: sum.splits option.splits entry.splits)

lemma fold_update_other:
  "list_all (\<lambda>src. p \<noteq> dest @ [fst src]) srcs \<Longrightarrow>
     map_of (fold (\<lambda>src. AList.update (dest @ [fst src]) (File (snd src))) srcs t) p = map_of t p"
  by (induction srcs arbitrary: t) (simp_all add: update_conv')

lemma fold_update_in:
  "distinct (map fst srcs) \<Longrightarrow> (n, c) \<in> set srcs \<Longrightarrow>
     map_of (fold (\<lambda>src. AList.update (dest @ [fst src]) (File (snd src))) srcs t) (dest @ [n])
       = Some (File c)"
proof (induction srcs arbitrary: t)
  case Nil
  then show ?case by simp
next
  case (Cons s srcs)
  show ?case
  proof (cases "(n, c) \<in> set srcs")
    case True
    then show ?thesis using Cons by simp
  next
    case False
    then have s: "s = (n, c)" using Cons.prems by simp
    have "n \<notin> fst ` set srcs" using Cons.prems(1) s by simp
    then have "list_all (\<lambda>src. dest @ [n] \<noteq> dest @ [fst src]) srcs"
      by (auto simp: list_all_iff)
    then show ?thesis using s by (simp add: fold_update_other update_conv')
  qed
qed

lemma copy_all_succeeds:
  "distinct (map fst srcs) \<Longrightarrow> list_all (\<lambda>src. map_of t (dest @ [fst src]) \<noteq> Some Dir) srcs \<Longrightarrow>
     copy_all srcs dest t = Inr (fold (\<lambda>src. AList.update (dest @ [fst src]) (File (snd src))) srcs t)"
proof (induction srcs arbitrary: t)
  case Nil
  show ?case by simp
next
  case (Cons s srcs)
  let ?t = "AList.update (dest @ [fst s]) (File (snd s)) t"
  have c: "copy2 s dest t = Inr ?t"
    using Cons.prems(2) by (auto simp: copy2_def split: option.splits entry.splits)
  have "list_all (\<lambda>src. map_of ?t (dest @ [fst src]) \<noteq> Some Dir) srcs"
    using Cons.prems by (auto simp: list_all_iff update_conv')
  then show ?case using Cons c by simp
qed

lemma copy_all_fails:
  "distinct (map fst srcs) \<Longrightarrow> \<not> list_all (\<lambda>src. map_of t (dest @ [fst src]) \<noteq> Some Dir) srcs \<Longrightarrow>
     copy_all srcs dest t = Inl IsADirectoryError"
proof (induction srcs arbitrary: t)
  case Nil
  then show ?case by simp
next
  case (Cons s srcs)
  show ?case
  proof (cases "map_of t (dest @ [fst s]) = Some Dir")
    case True
    then show ?thesis by (simp add: copy2_def)
  next
    case False
    let ?t = "AList.update (dest @ [fst s]) (File (snd s)) t"
    have c: "copy2 s dest t = Inr ?t"
      using False by (auto simp: copy2_def split: option.splits entry.splits)
    from Cons.prems(2) have "\<exists>src \<in> set (s # srcs). map_of t (dest @ [fst src]) = Some Dir"
      by (simp only: list_all_iff) blast
    then obtain src where src: "src \<in> set (s # srcs)"
      and sd: "map_of t (dest @ [fst src]) = Some Dir"
      by blast
    from sd False have "src \<noteq> s" by auto
    with src have in_rest: "src \<in> set srcs" by simp
    then have "fst src \<in> fst ` set srcs" by (rule imageI)
    moreover have "fst s \<notin> fst ` set srcs" using Cons.prems(1) by simp
    ultimately have "fst src \<noteq> fst s" by metis
    then have "map_of ?t (dest @ [fst src]) = Some Dir" using sd by (simp add: update_conv')
    then have "\<not> list_all (\<lambda>src. map_of ?t (dest @ [fst src]) \<noteq> Some Dir) srcs"
      using in_rest by (auto simp: list_all_iff)
    then show ?thesis using Cons c by simp
  qed
qed

lemma mkdir_exist_ok_eq:
  "mkdir_exist_ok p t =
     (case map_of t p of
        Some (File c) \<Rightarrow> Inl FileExistsError
      | _ \<Rightarrow> Inr (case map_of t p of None \<Rightarrow> t @ [(p, Dir)] | Some e \<Rightarrow> t))"
  by (simp add: mkdir_exist_ok_def split: option.splits entry.splits)

lemma map_of_mkdir_other:
  "q \<noteq> p \<Longrightarrow> map_of (case x of None \<Rightarrow> t @ [(p, Dir)] | Some e \<Rightarrow> t) q = map_of t q"
  by (simp add: map_add_def split: option.splits)

lemma map_of_mkdir_same:
  "map_of t p \<noteq> None \<Longrightarrow> map_of (case map_of t p of None \<Rightarrow> t @ [(p, Dir)] | Some e \<Rightarrow> t) p = map_of t p"
  "map_of t p = None \<Longrightarrow> map_of (case map_of t p of None \<Rightarrow> t @ [(p, Dir)] | Some e \<Rightarrow> t) p = Some Dir"
  by (auto simp: map_add_def split: option.splits)

lemma inject_archive_eq:
  "inject_archive pfs attempt a files =
     (case map_of files a of
        None \<Rightarrow> (files, Some BadArchive)
      | Some Not_an_archive \<Rightarrow> (files, Some BadArchive)
      | Some (Packed t) \<Rightarrow>
          (case map_of t [''platforms''] of
             Some (File c) \<Rightarrow> (files, Some FileExistsError)
           | _ \<Rightarrow>
               if \<not> list_all (\<lambda>src. map_of t [''platforms'', fst src] \<noteq> Some Dir) (platform_archives pfs)
               then (files, Some IsADirectoryError)
               else (case attempt a of
                       Written \<Rightarrow>
                         (AList.update a (Packed (repacked a (with_platforms pfs t)))
                            (AList.delete a files), None)
                     | Write_failed left \<Rightarrow>
                         (if left then AList.update a Not_an_archive (AList.delete a files)
                          else AList.delete a files, Some WriteError))))"
proof (cases "map_of files a")
  case None
  then show ?thesis by (simp add: inject_archive_def)
next
  case (Some content)
  show ?thesis
  proof (cases content)
    case Not_an_archive
    then show ?thesis using Some by (simp add: inject_archive_def extractall_def)
  next
    case (Packed t0)
    define t where "t = AList.clearjunk t0"
    have mt: "map_of t = map_of t0" unfolding t_def by (rule map_of_clearjunk)
    have ex: "extractall (Packed t0) = Inr t" by (simp add: extractall_def t_def)
    let ?t1 = "case map_of t [''platforms''] of None \<Rightarrow> t @ [([''platforms''], Dir)] | Some e \<Rightarrow> t"
    let ?srcs = "platform_archives pfs"
    have cond: "list_all (\<lambda>src. map_of ?t1 ([''platforms''] @ [fst src]) \<noteq> Some Dir) ?srcs
        = list_all (\<lambda>src. map_of t0 [''platforms'', fst src] \<noteq> Some Dir) ?srcs"
      by (simp add: map_of_mkdir_other mt)
    have wp: "fold (\<lambda>src. AList.update ([''platforms''] @ [fst src]) (File (snd src))) ?srcs ?t1
        = with_platforms pfs t0"
      unfolding with_platforms_def t_def map_of_clearjunk by simp
    show ?thesis
    proof (cases "\<exists>c. map_of t0 [''platforms''] = Some (File c)")
      case True
      then show ?thesis using Some Packed ex
        by (auto simp: inject_archive_def mkdir_exist_ok_eq mt)
    next
      case False
      then have mk: "mkdir_exist_ok [''platforms''] t = Inr ?t1"
        by (auto simp: mkdir_exist_ok_eq mt split: option.splits entry.splits)
      show ?thesis
      proof (cases "list_all (\<lambda>src. map_of t0 [''platforms'', fst src] \<noteq> Some Dir) ?srcs")
        case ok: True
        then have "copy_all ?srcs [''platforms''] ?t1 =
           Inr (fold (\<lambda>src. AList.update ([''platforms''] @ [fst src]) (File (snd src))) ?srcs ?t1)"
          using cond by (intro copy_all_succeeds platform_archives_distinct) simp
        then have cp: "copy_all ?srcs [''platforms''] ?t1 = Inr (with_platforms pfs t0)"
          by (simp only: wp)
        show ?thesis using Some Packed False ok
          by (auto simp: inject_archive_def ex mk cp repacked_def Let_def
              split: option.splits entry.splits write_outcome.splits)
      next
        case bad: False
        then have cp: "copy_all ?srcs [''platforms''] ?t1 = Inl IsADirectoryError"
          using cond by (intro copy_all_fails platform_archives_distinct) simp
        show ?thesis using Some Packed False bad
          by (auto simp: inject_archive_def ex mk cp split: option.splits entry.splits)
      qed
    qed
  qed
qed

lemma inject_archive_success:
  assumes "map_of files a = Some (Packed t)" and "can_inject pfs t" and "attempt a = Written"
  shows "inject_archive pfs attempt a files =
    (AList.update a (Packed (repacked a (with_platforms pfs t))) (AList.delete a files), None)"
  using assms unfolding inject_archive_eq can_inject_def
  by (auto split: option.splits entry.splits)

lemma inject_archive_NoneD:
  assumes "inject_archive pfs attempt a files = (files', None)"
  shows "\<exists>t. map_of files a = Some (Packed t) \<and> can_inject pfs t \<and> attempt a = Written \<and>
     files' = AList.update a (Packed (repacked a (with_platforms pfs t))) (AList.delete a files)"
  using assms unfolding inject_archive_eq can_inject_def
  by (auto split: option.splits entry.splits file_content.splits if_splits write_outcome.splits)

lemma inject_archive_frame:
  "b \<noteq> a \<Longrightarrow> map_of (fst (inject_archive pfs attempt a files)) b = map_of files b"
  unfolding inject_archive_eq
  by (auto simp: update_conv' delete_conv'
      split: option.splits entry.splits file_content.splits if_splits write_outcome.splits)


subsection \<open>The loop over the release archives\<close>

lemma inject_loop_completes:
  assumes "inject_loop pfs attempt as files = (files', printed, None)" and "distinct as"
  shows "(\<forall>a \<in> set as. \<exists>t. map_of files a = Some (Packed t) \<and> can_inject pfs t \<and>
            attempt a = Written \<and>
            map_of files' a = Some (Packed (repacked a (with_platforms pfs t)))) \<and>
         (\<forall>b. b \<notin> set as \<longrightarrow> map_of files' b = map_of files b) \<and>
         printed = concat (map (\<lambda>a. [Processing a, Added a]) as)"
  using assms
proof (induction as arbitrary: files files' printed)
  case Nil
  then show ?case by simp
next
  case (Cons a as)
  obtain files1 r1 where ia: "inject_archive pfs attempt a files = (files1, r1)"
    by (cases "inject_archive pfs attempt a files")
  have r1: "r1 = None"
    using Cons.prems(1) ia by (cases r1) (auto split: prod.splits)
  obtain files2 printed2 r2 where il: "inject_loop pfs attempt as files1 = (files2, printed2, r2)"
    by (cases "inject_loop pfs attempt as files1") auto
  from Cons.prems(1) ia r1 il have eq: "files' = files2" "r2 = None"
    "printed = [Processing a, Added a] @ printed2"
    by simp_all
  from Cons.prems(2) have d: "distinct as" and na: "a \<notin> set as" by simp_all
  note IH = Cons.IH [OF il [unfolded eq(2)] d]
  from inject_archive_NoneD [OF ia [unfolded r1]] obtain t where
    t: "map_of files a = Some (Packed t)" "can_inject pfs t" "attempt a = Written"
    and f1: "files1 = AList.update a (Packed (repacked a (with_platforms pfs t))) (AList.delete a files)"
    by blast
  have frame: "map_of files1 b = map_of files b" if "b \<noteq> a" for b
    using inject_archive_frame [OF that, of pfs attempt files] ia by simp
  have a1: "map_of files1 a = Some (Packed (repacked a (with_platforms pfs t)))"
    unfolding f1 by (simp add: update_conv')
  have A: "\<exists>t. map_of files a = Some (Packed t) \<and> can_inject pfs t \<and> attempt a = Written \<and>
            map_of files' a = Some (Packed (repacked a (with_platforms pfs t)))"
    using t a1 IH na unfolding eq(1) by auto
  have B: "\<exists>t. map_of files b = Some (Packed t) \<and> can_inject pfs t \<and> attempt b = Written \<and>
            map_of files' b = Some (Packed (repacked b (with_platforms pfs t)))" if "b \<in> set as" for b
  proof -
    from that na have "b \<noteq> a" by auto
    then show ?thesis using IH that frame unfolding eq(1) by auto
  qed
  have C: "map_of files' b = map_of files b" if "b \<notin> set (a # as)" for b
    using that IH frame unfolding eq(1) by auto
  have D: "printed = concat (map (\<lambda>a. [Processing a, Added a]) (a # as))"
    using IH eq(3) by simp
  show ?case using A B C D by auto
qed

lemma inject_loop_can_complete:
  assumes "\<forall>a \<in> set as. \<exists>t. map_of files a = Some (Packed t) \<and> can_inject pfs t \<and> attempt a = Written"
    and "distinct as"
  shows "\<exists>files' printed. inject_loop pfs attempt as files = (files', printed, None)"
  using assms
proof (induction as arbitrary: files)
  case Nil
  show ?case by simp
next
  case (Cons a as)
  from Cons.prems(1) obtain t where
    t: "map_of files a = Some (Packed t)" "can_inject pfs t" "attempt a = Written" by auto
  let ?files1 = "AList.update a (Packed (repacked a (with_platforms pfs t))) (AList.delete a files)"
  have ia: "inject_archive pfs attempt a files = (?files1, None)"
    using t by (rule inject_archive_success)
  have "\<forall>b \<in> set as. \<exists>t. map_of ?files1 b = Some (Packed t) \<and> can_inject pfs t \<and> attempt b = Written"
  proof
    fix b assume b: "b \<in> set as"
    with Cons.prems(2) have "b \<noteq> a" by auto
    then have "map_of ?files1 b = map_of files b" by (simp add: update_conv' delete_conv')
    then show "\<exists>t. map_of ?files1 b = Some (Packed t) \<and> can_inject pfs t \<and> attempt b = Written"
      using Cons.prems(1) b by auto
  qed
  moreover have "distinct as" using Cons.prems(2) by simp
  ultimately obtain files' printed where "inject_loop pfs attempt as ?files1 = (files', printed, None)"
    using Cons.IH by blast
  then show ?case using ia by simp
qed


subsection \<open>Files kept and files added\<close>

lemma map_of_filter_keep:
  "map_of t p = Some v \<Longrightarrow> P (p, v) \<Longrightarrow> map_of (filter P t) p = Some v"
  by (induction t) (auto split: if_splits)

lemma zip_tree_keeps_files:
  "map_of t p = Some (File c) \<Longrightarrow> map_of (zip_tree t) p = Some (File c)"
  unfolding zip_tree_def by (rule map_of_filter_keep) (simp_all add: zip_keeps_def is_file_def)

lemma repacked_keeps_files:
  "map_of t p = Some (File c) \<Longrightarrow> map_of (repacked a t) p = Some (File c)"
  by (simp add: repacked_def zip_tree_keeps_files tar_tree_def)

lemma fold_update_other':
  "list_all (\<lambda>src. p \<noteq> [d, fst src]) srcs \<Longrightarrow>
     map_of (fold (\<lambda>src. AList.update [d, fst src] (File (snd src))) srcs t) p = map_of t p"
  using fold_update_other [of p "[d]" srcs t] by simp

lemma fold_update_in':
  "distinct (map fst srcs) \<Longrightarrow> (n, c) \<in> set srcs \<Longrightarrow>
     map_of (fold (\<lambda>src. AList.update [d, fst src] (File (snd src))) srcs t) [d, n] = Some (File c)"
  using fold_update_in [of srcs n c "[d]" t] by simp

lemma with_platforms_has_archives:
  "(n, c) \<in> set (platform_archives pfs) \<Longrightarrow>
     map_of (with_platforms pfs t) [''platforms'', n] = Some (File c)"
  unfolding with_platforms_def by (rule fold_update_in' [OF platform_archives_distinct])

lemma with_platforms_keeps_files:
  assumes "map_of t p = Some (File c)" and "\<not> injected_path pfs p"
  shows "map_of (with_platforms pfs t) p = Some (File c)"
proof -
  let ?t1 = "case map_of t [''platforms''] of
          None \<Rightarrow> AList.clearjunk t @ [([''platforms''], Dir)]
        | Some e \<Rightarrow> AList.clearjunk t"
  from assms(2) have "list_all (\<lambda>src. p \<noteq> [''platforms'', fst src]) (platform_archives pfs)"
    by (simp add: injected_path_def list_all_iff list_ex_iff)
  then have "map_of (with_platforms pfs t) p = map_of ?t1 p"
    unfolding with_platforms_def by (rule fold_update_other')
  also have "\<dots> = map_of t p"
  proof (cases "p = [''platforms'']")
    case True
    then show ?thesis using assms(1) by (simp add: map_of_clearjunk)
  next
    case False
    then show ?thesis by (simp add: map_of_mkdir_other map_of_clearjunk)
  qed
  finally show ?thesis using assms(1) by simp
qed

lemma inject_platform_archives_Some:
  assumes "platform_files dist = Some pfs"
  shows "inject_platform_archives attempt dist =
     (let (files', printed, r) =
                 inject_loop pfs attempt (release_archives (dist_files dist)) (dist_files dist)
           in (dist\<lparr>dist_files := files'\<rparr>,
               printed @ (if r = None then [Injected_all] else []), r))"
  using assms by (simp add: inject_platform_archives_def)

text \<open>
  Claim C1, as the code has it.  When injection completes, every release
  archive holds every file it held before, with the same bytes, except a file
  at a path \<^verbatim>\<open>platforms/<name>\<close> where \<^verbatim>\<open><name>\<close> is a platform archive: that one is
  replaced.  Every platform archive is in the release archive under
  \<^verbatim>\<open>platforms/\<close>, with the bytes of its source file.
\<close>

theorem injection_keeps_files_and_adds_platform_archives:
  assumes "inject_platform_archives attempt dist = (dist', printed, None)"
    and "platform_files dist = Some pfs"
    and "a \<in> set (release_archives (dist_files dist))"
    and "map_of (dist_files dist) a = Some (Packed t)"
  shows "\<exists>t'. map_of (dist_files dist') a = Some (Packed t') \<and>
           (\<forall>p c. map_of t p = Some (File c) \<and> \<not> injected_path pfs p \<longrightarrow>
                    map_of t' p = Some (File c)) \<and>
           (\<forall>src \<in> set (platform_archives pfs).
               map_of t' [''platforms'', fst src] = Some (File (snd src)))"
proof -
  obtain files' printed' r where
    il: "inject_loop pfs attempt (release_archives (dist_files dist)) (dist_files dist)
           = (files', printed', r)"
    by (cases "inject_loop pfs attempt (release_archives (dist_files dist)) (dist_files dist)") auto
  from assms(1) have r: "r = None" and d: "dist_files dist' = files'"
    unfolding inject_platform_archives_Some [OF assms(2)] il by auto
  from inject_loop_completes [OF il [unfolded r] release_archives_distinct] assms(3)
  obtain t0 where t0: "map_of (dist_files dist) a = Some (Packed t0)"
    and res: "map_of files' a = Some (Packed (repacked a (with_platforms pfs t0)))"
    by blast
  from t0 assms(4) have tt: "t0 = t" by simp
  let ?t' = "repacked a (with_platforms pfs t)"
  have 1: "map_of (dist_files dist') a = Some (Packed ?t')" using res d tt by simp
  have 2: "\<forall>p c. map_of t p = Some (File c) \<and> \<not> injected_path pfs p \<longrightarrow>
                    map_of ?t' p = Some (File c)"
    by (auto intro: repacked_keeps_files with_platforms_keeps_files)
  have 3: "\<forall>src \<in> set (platform_archives pfs).
               map_of ?t' [''platforms'', fst src] = Some (File (snd src))"
  proof
    fix src assume "src \<in> set (platform_archives pfs)"
    then have "(fst src, snd src) \<in> set (platform_archives pfs)" by simp
    then show "map_of ?t' [''platforms'', fst src] = Some (File (snd src))"
      by (intro repacked_keeps_files with_platforms_has_archives)
  qed
  show ?thesis using 1 2 3 by blast
qed

text \<open>
  The release archive of the example keeps its two files and gains the two
  platform archives.
\<close>

theorem injection_example:
  "\<exists>t'. map_of (dist_files (fst (inject_platform_archives (\<lambda>name. Written) example_dist)))
            ''portunix_1.2.3_linux_amd64.tar.gz'' = Some (Packed t') \<and>
         map_of t' [''portunix''] = Some (File ''ELF'') \<and>
         map_of t' [''docs'', ''README.md''] = Some (File ''readme'') \<and>
         map_of t' [''platforms'', ''linux-amd64.tar.gz''] = Some (File ''TGZ-BYTES'') \<and>
         map_of t' [''platforms'', ''windows-amd64.zip''] = Some (File ''ZIP-BYTES'')"
proof -
  let ?a = "''portunix_1.2.3_linux_amd64.tar.gz''"
  let ?r = "inject_platform_archives (\<lambda>name. Written) example_dist"
  have c: "snd (snd ?r) = None" by code_simp
  have h1: "?r = (fst ?r, fst (snd ?r), None)"
    using c by (metis prod.collapse)
  have h2: "platform_files example_dist = Some two_platform_files" by code_simp
  have h3: "?a \<in> set (release_archives (dist_files example_dist))" by code_simp
  have h4: "map_of (dist_files example_dist) ?a = Some (Packed release_tree)" by code_simp
  from injection_keeps_files_and_adds_platform_archives [OF h1 h2 h3 h4]
  obtain t' where 1: "map_of (dist_files (fst ?r)) ?a = Some (Packed t')"
    and 2: "\<And>p c. map_of release_tree p = Some (File c) \<Longrightarrow> \<not> injected_path two_platform_files p
                \<Longrightarrow> map_of t' p = Some (File c)"
    and 3: "\<And>src. src \<in> set (platform_archives two_platform_files) \<Longrightarrow>
                map_of t' [''platforms'', fst src] = Some (File (snd src))"
    by blast
  have f1: "map_of release_tree [''portunix''] = Some (File ''ELF'')" by code_simp
  have f2: "map_of release_tree [''docs'', ''README.md''] = Some (File ''readme'')" by code_simp
  have n1: "\<not> injected_path two_platform_files [''portunix'']" by code_simp
  have n2: "\<not> injected_path two_platform_files [''docs'', ''README.md'']" by code_simp
  have s1: "(''linux-amd64.tar.gz'', ''TGZ-BYTES'') \<in> set (platform_archives two_platform_files)"
    by code_simp
  have s2: "(''windows-amd64.zip'', ''ZIP-BYTES'') \<in> set (platform_archives two_platform_files)"
    by code_simp
  have "map_of t' [''portunix''] = Some (File ''ELF'')" using 2 [OF f1 n1] .
  moreover have "map_of t' [''docs'', ''README.md''] = Some (File ''readme'')" using 2 [OF f2 n2] .
  moreover have "map_of t' [''platforms'', ''linux-amd64.tar.gz''] = Some (File ''TGZ-BYTES'')"
    using 3 [OF s1] by simp
  moreover have "map_of t' [''platforms'', ''windows-amd64.zip''] = Some (File ''ZIP-BYTES'')"
    using 3 [OF s2] by simp
  ultimately show ?thesis using 1 by blast
qed

text \<open>
  The claim as stated fails for a file that is in the way of a platform
  archive: a release archive that already holds \<^verbatim>\<open>platforms/linux-amd64.tar.gz\<close>
  with the bytes \<^verbatim>\<open>OLD\<close> holds that path with the bytes \<^verbatim>\<open>NEW\<close> afterwards.
\<close>

theorem injection_replaces_a_stale_platform_archive:
  "map_of (dist_files stale_dist) ''portunix_1.2.3_linux_amd64.tar.gz'' =
     Some (Packed [([''portunix''], File ''ELF''), ([''platforms''], Dir),
                   ([''platforms'', ''linux-amd64.tar.gz''], File ''OLD'')]) \<and>
   inject_platform_archives (\<lambda>name. Written) stale_dist =
     (stale_dist\<lparr>dist_files :=
        [(''portunix_1.2.3_linux_amd64.tar.gz'',
          Packed [([''portunix''], File ''ELF''), ([''platforms''], Dir),
                  ([''platforms'', ''linux-amd64.tar.gz''], File ''NEW'')])]\<rparr>,
      [Processing ''portunix_1.2.3_linux_amd64.tar.gz'',
       Added ''portunix_1.2.3_linux_amd64.tar.gz'', Injected_all],
      None)"
proof -
  have 1: "map_of (dist_files stale_dist) ''portunix_1.2.3_linux_amd64.tar.gz'' =
     Some (Packed [([''portunix''], File ''ELF''), ([''platforms''], Dir),
                   ([''platforms'', ''linux-amd64.tar.gz''], File ''OLD'')])"
    by code_simp
  have 2: "inject_platform_archives (\<lambda>name. Written) stale_dist =
     (stale_dist\<lparr>dist_files :=
        [(''portunix_1.2.3_linux_amd64.tar.gz'',
          Packed [([''portunix''], File ''ELF''), ([''platforms''], Dir),
                  ([''platforms'', ''linux-amd64.tar.gz''], File ''NEW'')])]\<rparr>,
      [Processing ''portunix_1.2.3_linux_amd64.tar.gz'',
       Added ''portunix_1.2.3_linux_amd64.tar.gz'', Injected_all],
      None)"
    by code_simp
  show ?thesis by (intro conjI 1 2)
qed

text \<open>
  Claim C4, as the code has it.  The guard tests the existence of the platforms
  directory only: without the directory the phase is skipped with the warning
  and nothing changes.
\<close>

theorem injection_is_skipped_without_platforms_directory:
  assumes "platform_files dist = None"
  shows "inject_platform_archives attempt dist = (dist, [Skipped], None)"
  using assms by (simp add: inject_platform_archives_def)

text \<open>The example directory without \<^verbatim>\<open>dist/platforms\<close>.\<close>

theorem injection_skipped_example:
  "inject_platform_archives (\<lambda>name. Written) (example_dist\<lparr>platform_files := None\<rparr>) =
     (example_dist\<lparr>platform_files := None\<rparr>, [Skipped], None)"
  by (rule injection_is_skipped_without_platforms_directory) simp

text \<open>
  The claim as stated fails for a platforms directory that exists and is
  empty: no warning is printed, the release archive is processed and written
  again, and a tar archive comes out with the new member \<^verbatim>\<open>platforms\<close>.
\<close>

theorem injection_is_not_skipped_for_an_empty_platforms_directory:
  "inject_platform_archives (\<lambda>name. Written)
     \<lparr>platform_files = Some [],
      dist_files = [(''portunix_1.2.3_linux_amd64.tar.gz'', Packed [([''portunix''], File ''ELF'')])]\<rparr> =
     (\<lparr>platform_files = Some [],
       dist_files = [(''portunix_1.2.3_linux_amd64.tar.gz'',
                      Packed [([''portunix''], File ''ELF''), ([''platforms''], Dir)])]\<rparr>,
      [Processing ''portunix_1.2.3_linux_amd64.tar.gz'',
       Added ''portunix_1.2.3_linux_amd64.tar.gz'', Injected_all],
      None)"
  by code_simp

subsection \<open>Failures\<close>





subsection \<open>Running injection twice\<close>

lemma fold_update_distinct:
  "distinct (map fst t) \<Longrightarrow>
     distinct (map fst (fold (\<lambda>src. AList.update [d, fst src] (File (snd src))) srcs t))"
  by (induction srcs arbitrary: t) (simp_all add: distinct_update)

lemma with_platforms_distinct: "distinct (map fst (with_platforms pfs t))"
proof -
  let ?cj = "AList.clearjunk t"
  have d: "distinct (map fst ?cj)" by (rule distinct_clearjunk)
  have "distinct (map fst (case map_of t [''platforms''] of
          None \<Rightarrow> ?cj @ [([''platforms''], Dir)] | Some e \<Rightarrow> ?cj))"
  proof (cases "map_of t [''platforms'']")
    case None
    then have "map_of ?cj [''platforms''] = None" by (simp add: map_of_clearjunk)
    then have "[''platforms''] \<notin> fst ` set ?cj" by (simp add: map_of_eq_None_iff)
    then show ?thesis using d None by simp
  next
    case (Some e)
    then show ?thesis using d by simp
  qed
  then show ?thesis unfolding with_platforms_def by (rule fold_update_distinct)
qed

lemma repacked_distinct: "distinct (map fst t) \<Longrightarrow> distinct (map fst (repacked a t))"
  by (simp add: repacked_def zip_tree_def tar_tree_def distinct_fst_filter)

lemma repacked_subset: "set (repacked a t) \<subseteq> set t"
  by (auto simp: repacked_def zip_tree_def tar_tree_def)

lemma with_platforms_dir:
  assumes "can_inject pfs t"
  shows "map_of (with_platforms pfs t) [''platforms''] = Some Dir"
proof -
  let ?cj = "AList.clearjunk t"
  let ?t1 = "case map_of t [''platforms''] of
          None \<Rightarrow> ?cj @ [([''platforms''], Dir)] | Some e \<Rightarrow> ?cj"
  have "list_all (\<lambda>src. [''platforms''] \<noteq> [''platforms'', fst src]) (platform_archives pfs)"
    by (simp add: list_all_iff)
  then have "map_of (with_platforms pfs t) [''platforms''] = map_of ?t1 [''platforms'']"
    unfolding with_platforms_def by (rule fold_update_other')
  also have "\<dots> = Some Dir"
  proof (cases "map_of t [''platforms'']")
    case None
    then have "map_of ?cj [''platforms''] = None" by (simp add: map_of_clearjunk)
    then show ?thesis using None by (simp add: map_add_def)
  next
    case (Some e)
    then have "e = Dir" using assms by (cases e) (simp_all add: can_inject_def)
    then show ?thesis using Some by (simp add: map_of_clearjunk)
  qed
  finally show ?thesis .
qed

lemma map_of_sub_distinct:
  assumes "map_of r p = Some v" and "set r \<subseteq> set u" and "distinct (map fst u)"
  shows "map_of u p = Some v"
proof -
  from assms(1) have "(p, v) \<in> set r" by (rule map_of_SomeD)
  then have "(p, v) \<in> set u" using assms(2) by auto
  then show ?thesis using assms(3) by simp
qed

lemma repacked_platforms_entry:
  assumes "can_inject pfs t"
  shows "map_of (repacked a (with_platforms pfs t)) [''platforms''] = None \<or>
         map_of (repacked a (with_platforms pfs t)) [''platforms''] = Some Dir"
proof (cases "map_of (repacked a (with_platforms pfs t)) [''platforms'']")
  case None
  then show ?thesis by simp
next
  case (Some v)
  then have "map_of (with_platforms pfs t) [''platforms''] = Some v"
    by (rule map_of_sub_distinct [OF _ repacked_subset with_platforms_distinct])
  then show ?thesis using Some with_platforms_dir [OF assms] by simp
qed

lemma repacked_has_archives:
  "src \<in> set (platform_archives pfs) \<Longrightarrow>
     map_of (repacked a (with_platforms pfs t)) [''platforms'', fst src] = Some (File (snd src))"
  by (intro repacked_keeps_files with_platforms_has_archives) simp

lemma can_inject_repacked:
  assumes "can_inject pfs t"
  shows "can_inject pfs (repacked a (with_platforms pfs t))"
proof -
  have "list_all (\<lambda>src. map_of (repacked a (with_platforms pfs t)) [''platforms'', fst src] \<noteq> Some Dir)
          (platform_archives pfs)"
    by (simp add: list_all_iff repacked_has_archives)
  then show ?thesis using repacked_platforms_entry [OF assms, of a]
    by (auto simp: can_inject_def)
qed

lemma fold_update_triv:
  "list_all (\<lambda>src. map_of x [d, fst src] = Some (File (snd src))) srcs \<Longrightarrow>
     fold (\<lambda>src. AList.update [d, fst src] (File (snd src))) srcs x = x"
  by (induction srcs) (simp_all add: update_triv)

lemma zip_keeps_mono:
  "zip_keeps u x \<Longrightarrow> (\<And>qe. qe \<in> set u \<Longrightarrow> is_file (snd qe) \<Longrightarrow> qe \<in> set v) \<Longrightarrow> zip_keeps v x"
  by (auto simp: zip_keeps_def list_ex_iff)

lemma file_in_zip_tree: "qe \<in> set u \<Longrightarrow> is_file (snd qe) \<Longrightarrow> qe \<in> set (zip_tree u)"
  by (simp add: zip_tree_def zip_keeps_def)

lemma zip_tree_idem: "zip_tree (zip_tree u) = zip_tree u"
proof -
  have "\<forall>x \<in> set (zip_tree u). zip_keeps (zip_tree u) x"
  proof
    fix x assume "x \<in> set (zip_tree u)"
    then have "zip_keeps u x" by (simp add: zip_tree_def)
    then show "zip_keeps (zip_tree u) x" by (rule zip_keeps_mono) (rule file_in_zip_tree)
  qed
  then have "filter (zip_keeps (zip_tree u)) (zip_tree u) = zip_tree u"
    by (simp only: filter_id_conv)
  then show ?thesis by (simp add: zip_tree_def [of "zip_tree u"])
qed

lemma zip_tree_drops_empty_platforms:
  assumes "map_of (zip_tree u) [''platforms''] = None" and "([''platforms''], Dir) \<in> set u"
  shows "zip_tree (zip_tree u @ [([''platforms''], Dir)]) = zip_tree u"
proof -
  let ?r = "zip_tree u"
  let ?pd = "([''platforms''], Dir)"
  let ?r1 = "?r @ [?pd]"
  have keep: "\<forall>x \<in> set ?r. zip_keeps ?r1 x"
  proof
    fix x assume "x \<in> set ?r"
    then have "zip_keeps u x" by (simp add: zip_tree_def)
    then show "zip_keeps ?r1 x"
      by (rule zip_keeps_mono) (simp add: file_in_zip_tree)
  qed
  have drop: "\<not> zip_keeps ?r1 ?pd"
  proof
    assume "zip_keeps ?r1 ?pd"
    then obtain qe where qe: "qe \<in> set ?r1" "is_file (snd qe)" "strictly_below [''platforms''] (fst qe)"
      by (auto simp: zip_keeps_def list_ex_iff is_file_def)
    then have "qe \<in> set ?r" by (auto simp: is_file_def)
    then have "qe \<in> set u" by (simp add: zip_tree_def)
    then have "zip_keeps u ?pd" using qe by (auto simp: zip_keeps_def list_ex_iff)
    then have "?pd \<in> set ?r" using assms(2) by (simp add: zip_tree_def)
    then have "map_of ?r [''platforms''] \<noteq> None"
      by (metis (no_types, lifting) fst_conv image_eqI map_of_eq_None_iff)
    then show False using assms(1) by simp
  qed
  have "filter (zip_keeps ?r1) ?r = ?r" using keep by (simp only: filter_id_conv)
  then have "filter (zip_keeps ?r1) ?r1 = ?r" using drop by simp
  then show ?thesis by (simp add: zip_tree_def [of ?r1])
qed

lemma injection_tree_idem:
  assumes "can_inject pfs t"
  shows "repacked a (with_platforms pfs (repacked a (with_platforms pfs t))) =
         repacked a (with_platforms pfs t)"
proof -
  let ?u = "with_platforms pfs t"
  let ?r = "repacked a ?u"
  let ?r1 = "case map_of ?r [''platforms''] of
          None \<Rightarrow> ?r @ [([''platforms''], Dir)] | Some e \<Rightarrow> ?r"
  have dr: "distinct (map fst ?r)" by (intro repacked_distinct with_platforms_distinct)
  then have cj: "AList.clearjunk ?r = ?r" by (rule distinct_clearjunk_id)
  have "list_all (\<lambda>src. map_of ?r1 [''platforms'', fst src] = Some (File (snd src)))
          (platform_archives pfs)"
    by (simp add: list_all_iff map_of_mkdir_other repacked_has_archives)
  then have "fold (\<lambda>src. AList.update [''platforms'', fst src] (File (snd src)))
               (platform_archives pfs) ?r1 = ?r1"
    by (rule fold_update_triv)
  then have wp: "with_platforms pfs ?r = ?r1"
    unfolding with_platforms_def [of pfs ?r] cj .
  have ud: "map_of ?u [''platforms''] = Some Dir" by (rule with_platforms_dir [OF assms])
  show ?thesis
  proof (cases "endswith a ''.zip''")
    case False
    then have "?r = ?u" by (simp add: repacked_def tar_tree_def)
    then show ?thesis using ud wp False by (simp add: repacked_def tar_tree_def)
  next
    case True
    then have r: "?r = zip_tree ?u" by (simp add: repacked_def)
    show ?thesis
    proof (cases "map_of ?r [''platforms'']")
      case None
      have "([''platforms''], Dir) \<in> set ?u" using ud by (rule map_of_SomeD)
      then have "zip_tree (zip_tree ?u @ [([''platforms''], Dir)]) = zip_tree ?u"
        using None unfolding r by (intro zip_tree_drops_empty_platforms)
      then show ?thesis using None True wp r by (simp add: repacked_def)
    next
      case (Some e)
      then show ?thesis using True wp r by (simp add: repacked_def zip_tree_idem)
    qed
  qed
qed

lemma inject_platform_archives_NoneD:
  assumes "inject_platform_archives attempt dist = (dist1, printed1, None)"
    and "platform_files dist = Some pfs"
  shows "\<exists>printed. inject_loop pfs attempt (release_archives (dist_files dist)) (dist_files dist)
             = (dist_files dist1, printed, None) \<and> dist1 = dist\<lparr>dist_files := dist_files dist1\<rparr>"
proof -
  obtain files' printed' r where
    il: "inject_loop pfs attempt (release_archives (dist_files dist)) (dist_files dist)
           = (files', printed', r)"
    by (cases "inject_loop pfs attempt (release_archives (dist_files dist)) (dist_files dist)") auto
  from assms(1) have "r = None" "dist1 = dist\<lparr>dist_files := files'\<rparr>"
    unfolding inject_platform_archives_Some [OF assms(2)] il by auto
  then show ?thesis using il by auto
qed

text \<open>
  Claim C8.  When injection has completed, running it again on its own result
  completes and leaves every file of \<^verbatim>\<open>dist\<close> as the first run left it: every
  release archive has the same tree, in particular the same \<^verbatim>\<open>platforms/\<close>
  entries, and that tree lists every path once.
\<close>

theorem injection_twice_is_injection_once:
  assumes "inject_platform_archives attempt dist = (dist1, printed1, None)"
  shows "\<exists>dist2 printed2.
           inject_platform_archives attempt dist1 = (dist2, printed2, None) \<and>
           platform_files dist2 = platform_files dist1 \<and>
           (\<forall>name. map_of (dist_files dist2) name = map_of (dist_files dist1) name) \<and>
           (platform_files dist \<noteq> None \<longrightarrow>
              (\<forall>a \<in> set (release_archives (dist_files dist)).
                  \<exists>t1. map_of (dist_files dist1) a = Some (Packed t1) \<and> distinct (map fst t1)))"
proof (cases "platform_files dist")
  case None
  then have "dist1 = dist" using assms by (simp add: inject_platform_archives_def)
  then have "inject_platform_archives attempt dist1 = (dist1, [Skipped], None)"
    using None by (simp add: inject_platform_archives_def)
  then show ?thesis using None by auto
next
  case (Some pfs)
  let ?files = "dist_files dist"
  let ?files1 = "dist_files dist1"
  let ?as = "release_archives ?files"
  let ?as1 = "release_archives ?files1"
  let ?R = "\<lambda>a t. repacked a (with_platforms pfs t)"
  from inject_platform_archives_NoneD [OF assms Some] obtain printed where
    il1: "inject_loop pfs attempt ?as ?files = (?files1, printed, None)"
    and d1: "dist1 = dist\<lparr>dist_files := ?files1\<rparr>" by blast
  have pf1: "platform_files dist1 = Some pfs" using d1 Some by (metis dist_dir.select_convs(1) dist_dir.surjective dist_dir.update_convs(2))
  note c1 = inject_loop_completes [OF il1 release_archives_distinct]
  have in1: "\<exists>t. map_of ?files a = Some (Packed t) \<and> can_inject pfs t \<and> attempt a = Written \<and>
            map_of ?files1 a = Some (Packed (?R a t))" if "a \<in> set ?as" for a
    using c1 that by blast
  have out1: "map_of ?files1 b = map_of ?files b" if "b \<notin> set ?as" for b
    using c1 that by blast
  have "(map_of ?files1 b = None) = (map_of ?files b = None)" for b
  proof (cases "b \<in> set ?as")
    case True
    then show ?thesis using in1 [OF True] by auto
  next
    case False
    then show ?thesis using out1 by simp
  qed
  then have "fst ` set ?files1 = fst ` set ?files"
    by (metis (no_types, opaque_lifting) map_of_eq_None_iff subsetI subset_antisym)
  then have same: "set ?as1 = set ?as" by (simp add: release_archives_set)
  have ready: "\<forall>a \<in> set ?as1. \<exists>t. map_of ?files1 a = Some (Packed t) \<and> can_inject pfs t \<and>
      attempt a = Written"
  proof
    fix a assume "a \<in> set ?as1"
    then have "a \<in> set ?as" using same by simp
    from in1 [OF this] obtain t where "can_inject pfs t" "attempt a = Written"
      "map_of ?files1 a = Some (Packed (?R a t))" by blast
    then show "\<exists>t. map_of ?files1 a = Some (Packed t) \<and> can_inject pfs t \<and> attempt a = Written"
      using can_inject_repacked by blast
  qed
  from inject_loop_can_complete [OF ready release_archives_distinct]
  obtain files2 printed2 where il2: "inject_loop pfs attempt ?as1 ?files1 = (files2, printed2, None)"
    by blast
  note c2 = inject_loop_completes [OF il2 release_archives_distinct]
  have eq: "map_of files2 name = map_of ?files1 name" for name
  proof (cases "name \<in> set ?as1")
    case False
    then show ?thesis using c2 by blast
  next
    case True
    then have "name \<in> set ?as" using same by simp
    from in1 [OF this] obtain t where t: "can_inject pfs t"
      "map_of ?files1 name = Some (Packed (?R name t))" by blast
    from c2 True obtain t' where t': "map_of ?files1 name = Some (Packed t')"
      "map_of files2 name = Some (Packed (?R name t'))" by blast
    from t(2) t'(1) have "t' = ?R name t" by simp
    then show ?thesis using t t'(2) injection_tree_idem [OF t(1), of name] by simp
  qed
  have run2: "inject_platform_archives attempt dist1 =
      (dist1\<lparr>dist_files := files2\<rparr>, printed2 @ [Injected_all], None)"
    unfolding inject_platform_archives_Some [OF pf1] il2 by simp
  have dis: "\<forall>a \<in> set ?as. \<exists>t1. map_of ?files1 a = Some (Packed t1) \<and> distinct (map fst t1)"
  proof
    fix a assume "a \<in> set ?as"
    from in1 [OF this] obtain t where "map_of ?files1 a = Some (Packed (?R a t))" by blast
    moreover have "distinct (map fst (?R a t))" by (intro repacked_distinct with_platforms_distinct)
    ultimately show "\<exists>t1. map_of ?files1 a = Some (Packed t1) \<and> distinct (map fst t1)" by blast
  qed
  show ?thesis
    using run2 eq dis by (intro exI [of _ "dist1\<lparr>dist_files := files2\<rparr>"] exI [of _ "printed2 @ [Injected_all]"]) simp
qed

text \<open>The second run on the example leaves the zip archive as the first run wrote it.\<close>

theorem injection_twice_example:
  "\<exists>dist2 printed2.
     inject_platform_archives (\<lambda>name. Written)
        (fst (inject_platform_archives (\<lambda>name. Written) example_dist)) = (dist2, printed2, None) \<and>
     map_of (dist_files dist2) ''portunix_1.2.3_windows_amd64.zip'' =
       Some (Packed [([''portunix''], File ''ELF''), ([''docs''], Dir),
                     ([''docs'', ''README.md''], File ''readme''), ([''platforms''], Dir),
                     ([''platforms'', ''linux-amd64.tar.gz''], File ''TGZ-BYTES''),
                     ([''platforms'', ''windows-amd64.zip''], File ''ZIP-BYTES'')])"
proof -
  let ?r = "inject_platform_archives (\<lambda>name. Written) example_dist"
  have c: "snd (snd ?r) = None" by code_simp
  have h: "?r = (fst ?r, fst (snd ?r), None)" using c by (metis prod.collapse)
  have v: "map_of (dist_files (fst ?r)) ''portunix_1.2.3_windows_amd64.zip'' =
       Some (Packed [([''portunix''], File ''ELF''), ([''docs''], Dir),
                     ([''docs'', ''README.md''], File ''readme''), ([''platforms''], Dir),
                     ([''platforms'', ''linux-amd64.tar.gz''], File ''TGZ-BYTES''),
                     ([''platforms'', ''windows-amd64.zip''], File ''ZIP-BYTES'')])"
    by code_simp
  from injection_twice_is_injection_once [OF h] obtain dist2 printed2 where
    1: "inject_platform_archives (\<lambda>name. Written) (fst ?r) = (dist2, printed2, None)"
    and 2: "\<And>name. map_of (dist_files dist2) name = map_of (dist_files (fst ?r)) name"
    by blast
  show ?thesis using 1 2 [of "''portunix_1.2.3_windows_amd64.zip''"] v by auto
qed

end
